theory Spec2Isabelle
  imports Main
begin

section \<open>Values\<close>

text \<open>
  The JavaScript values the library handles. A promise of this implementation is a
  reference into the heap; a foreign object is described by what reading its
  \<open>then\<close> property gives. Functions are the closures the library itself creates
  (each with the variables it captured) and two kinds of user function: \<open>UserFn h\<close>,
  a function of one argument whose behaviour is looked up in an environment, and
  \<open>Script cs t\<close>, a function of two callbacks that performs the calls \<open>cs\<close> on them
  in order and then returns or, for \<open>t = Some e\<close>, raises \<open>e\<close>. \<open>ProtoThen\<close> is
  \<open>Promise.prototype.then\<close> and \<open>BoundThen obj\<close> is \<open>Promise.prototype.then.bind(obj)\<close>.
\<close>

datatype val =
    VUndefined
  | VNull
  | VBool bool
  | VNum int
  | VStr string
  | VArr "val list"
  | VRecord bool val
  | VTypeError string
  | VAggregateError "val list"
  | VPromise nat
  | VObj "val option"
  | VThrowing val
  | VFun fn
and fn =
    Noop
  | ProtoThen
  | BoundThen val
  | ResolveFn nat nat
  | RejectFn nat nat
  | UserFn nat
  | Script "call list" "val option"
  | AllExec "val list"
  | AllRes nat nat
  | OnSettledFulfill
  | OnSettledReject
  | RaceExec "val list"
  | AnyExec "val list"
  | ResolveOnce nat
  | RejectionCheck nat
and call = Succeed val | Fail val

type_synonym env = "nat \<Rightarrow> val \<Rightarrow> val + val"

text \<open>\<open>v && (typeof v === 'object' || typeof v === 'function')\<close>\<close>

fun is_objfun :: "val \<Rightarrow> bool" where
  "is_objfun VUndefined = False"
| "is_objfun VNull = False"
| "is_objfun (VBool b) = False"
| "is_objfun (VNum i) = False"
| "is_objfun (VStr x) = False"
| "is_objfun v = True"

text \<open>\<open>v instanceof Promise\<close>\<close>

fun instanceof_Promise :: "val \<Rightarrow> bool" where
  "instanceof_Promise (VPromise q) = True"
| "instanceof_Promise v = False"

text \<open>\<open>typeof v === 'function'\<close>\<close>

fun is_callable :: "val \<Rightarrow> bool" where
  "is_callable (VFun f) = True"
| "is_callable v = False"

text \<open>Reading \<open>obj.then\<close>: \<open>Inl e\<close> when the read raises \<open>e\<close>.\<close>

fun read_then :: "val \<Rightarrow> val + val" where
  "read_then (VPromise q) = Inr (VFun ProtoThen)"
| "read_then (VObj None) = Inr VUndefined"
| "read_then (VObj (Some t)) = Inr t"
| "read_then (VThrowing e) = Inl e"
| "read_then v = Inr VUndefined"

text \<open>\<open>getThen\<close>: the read under \<open>try\<close>; \<open>Inl e\<close> is \<open>IS_ERROR\<close> with \<open>LAST_ERROR = e\<close>.\<close>

definition getThen :: "val \<Rightarrow> val + val" where
  "getThen obj = read_then obj"

text \<open>
  \<open>f.bind(obj)\<close>: of the functions of the model only \<open>Promise.prototype.then\<close>
  reads \<open>this\<close>, and a bound function keeps its \<open>this\<close>.
\<close>

definition bind_this :: "fn \<Rightarrow> val \<Rightarrow> fn" where
  "bind_this f obj = (case f of ProtoThen \<Rightarrow> BoundThen obj | _ \<Rightarrow> f)"

section \<open>Promises, handlers and the state of the program\<close>

record handler =
  onFulfilled :: "fn option"
  onRejected :: "fn option"
  promise :: nat

text \<open>
  \<open>_deferreds\<close> is \<open>null\<close>, one Handler or an array of Handlers, according to
  \<open>_deferredState\<close>; the field holds the list of the Handlers stored.
\<close>

record promise_obj =
  p_deferredState :: nat
  p_state :: nat
  p_value :: val
  p_deferreds :: "handler list"

record all_ctx =
  all_args :: "val list"
  all_remaining :: int
  all_resolve :: val
  all_reject :: val

record any_ctx =
  any_length :: nat
  any_hasResolved :: bool
  any_rejectionReasons :: "val list"
  any_resolve :: val
  any_reject :: val

text \<open>
  The heap of promises, the \<open>done\<close> flag of every \<open>doResolve\<close> call, the queue of the
  scheduler (\<open>asap\<close>: first in, first out) and the local variables of the running
  \<open>Promise.all\<close> and \<open>Promise.any\<close> calls.
\<close>

record state =
  heap :: "promise_obj list"
  latches :: "bool list"
  queue :: "(nat \<times> handler) list"
  all_ctxs :: "all_ctx list"
  any_ctxs :: "any_ctx list"

definition Handler :: "val \<Rightarrow> val \<Rightarrow> nat \<Rightarrow> handler" where
  "Handler onF onR pr =
     \<lparr> onFulfilled = (case onF of VFun f \<Rightarrow> Some f | _ \<Rightarrow> None),
       onRejected = (case onR of VFun f \<Rightarrow> Some f | _ \<Rightarrow> None),
       promise = pr \<rparr>"

text \<open>The fields a constructor call sets, before \<open>doResolve\<close>.\<close>

definition fresh_promise :: promise_obj where
  "fresh_promise = \<lparr> p_deferredState = 0, p_state = 0, p_value = VNull, p_deferreds = [] \<rparr>"

definition alloc :: "state \<Rightarrow> nat \<times> state" where
  "alloc s = (length (heap s), s\<lparr>heap := heap s @ [fresh_promise]\<rparr>)"

definition upd :: "nat \<Rightarrow> (promise_obj \<Rightarrow> promise_obj) \<Rightarrow> state \<Rightarrow> state" where
  "upd p f s = s\<lparr>heap := (heap s)[p := f (heap s ! p)]\<rparr>"

section \<open>The core\<close>

text \<open>
  \<open>while (self._state === 3) self = self._value\<close>. A chain through a heap of \<open>k\<close>
  promises that has not ended after \<open>k\<close> steps has come back to a promise it has
  visited, and the loop never ends: the result is \<open>None\<close>. State 3 is only ever
  stored together with a promise.
\<close>

fun deref :: "nat \<Rightarrow> promise_obj list \<Rightarrow> nat \<Rightarrow> nat option" where
  "deref k h self =
     (if p_state (h ! self) = 3 then
        (case k of
           0 \<Rightarrow> None
         | Suc k' \<Rightarrow> (case p_value (h ! self) of VPromise q \<Rightarrow> deref k' h q | _ \<Rightarrow> None))
      else Some self)"

declare deref.simps [simp del]

text \<open>\<open>asap(function () {...})\<close> appends the closure, given by its two variables.\<close>

definition handleResolved :: "nat \<Rightarrow> handler \<Rightarrow> state \<Rightarrow> state" where
  "handleResolved self deferred s = s\<lparr>queue := queue s @ [(self, deferred)]\<rparr>"

definition handle :: "nat \<Rightarrow> handler \<Rightarrow> state \<Rightarrow> state option" where
  "handle self0 deferred s =
     (case deref (length (heap s)) (heap s) self0 of
        None \<Rightarrow> None
      | Some self \<Rightarrow>
          if p_state (heap s ! self) = 0 then
            if p_deferredState (heap s ! self) = 0 then
              Some (upd self (\<lambda>ob. ob\<lparr>p_deferredState := 1, p_deferreds := [deferred]\<rparr>) s)
            else if p_deferredState (heap s ! self) = 1 then
              Some (upd self (\<lambda>ob. ob\<lparr>p_deferredState := 2,
                                     p_deferreds := p_deferreds ob @ [deferred]\<rparr>) s)
            else
              Some (upd self (\<lambda>ob. ob\<lparr>p_deferreds := p_deferreds ob @ [deferred]\<rparr>) s)
          else Some (handleResolved self deferred s))"

fun handle_each :: "nat \<Rightarrow> handler list \<Rightarrow> state \<Rightarrow> state option" where
  "handle_each self [] s = Some s"
| "handle_each self (d # ds) s =
     (case handle self d s of None \<Rightarrow> None | Some s' \<Rightarrow> handle_each self ds s')"

text \<open>
  \<open>finale\<close>: the two \<open>if\<close>s of the source in turn. \<open>handle\<close> changes the Handlers
  of a pending promise only, which \<open>self\<close> is not here, so the loop runs over the
  array as it is when the loop starts.
\<close>

definition finale :: "nat \<Rightarrow> state \<Rightarrow> state option" where
  "finale self s =
     (case (if p_deferredState (heap s ! self) = 1 then
              (case handle_each self (p_deferreds (heap s ! self)) s of
                 None \<Rightarrow> None
               | Some s' \<Rightarrow> Some (upd self (\<lambda>ob. ob\<lparr>p_deferreds := []\<rparr>) s'))
            else Some s) of
        None \<Rightarrow> None
      | Some s1 \<Rightarrow>
          if p_deferredState (heap s1 ! self) = 2 then
            (case handle_each self (p_deferreds (heap s1 ! self)) s1 of
               None \<Rightarrow> None
             | Some s' \<Rightarrow> Some (upd self (\<lambda>ob. ob\<lparr>p_deferreds := []\<rparr>) s'))
          else Some s1)"

text \<open>\<open>Promise._onReject\<close> and \<open>Promise._onHandle\<close> are \<open>null\<close>, as the source sets them.\<close>

definition reject :: "nat \<Rightarrow> val \<Rightarrow> state \<Rightarrow> state option" where
  "reject self newValue s =
     finale self (upd self (\<lambda>ob. ob\<lparr>p_state := 2, p_value := newValue\<rparr>) s)"

definition self_resolution_error :: val where
  "self_resolution_error = VTypeError ''A promise cannot be resolved with itself.''"

definition not_a_function :: val where
  "not_a_function = VTypeError ''not a function''"

text \<open>
  \<open>then\<close> on a promise whose constructor is \<open>Promise\<close> (the only promises of the
  model): \<open>new Promise(noop)\<close> allocates and returns at once.
\<close>

definition then_method :: "nat \<Rightarrow> val \<Rightarrow> val \<Rightarrow> state \<Rightarrow> (nat \<times> state) option" where
  "then_method self onF onR s =
     (case alloc s of (res, s1) \<Rightarrow>
        (case handle self (Handler onF onR res) s1 of
           None \<Rightarrow> None
         | Some s2 \<Rightarrow> Some (res, s2)))"

text \<open>The cached promises of the ES6 layer are the first six of the heap.\<close>

definition TRUE :: nat where "TRUE = 0"
definition FALSE :: nat where "FALSE = 1"
definition NULL :: nat where "NULL = 2"
definition UNDEFINED :: nat where "UNDEFINED = 3"
definition ZERO :: nat where "ZERO = 4"
definition EMPTYSTRING :: nat where "EMPTYSTRING = 5"

definition valuePromise :: "val \<Rightarrow> state \<Rightarrow> nat \<times> state" where
  "valuePromise v s =
     (case alloc s of (p, s1) \<Rightarrow> (p, upd p (\<lambda>ob. ob\<lparr>p_state := 1, p_value := v\<rparr>) s1))"

definition getAggregateError :: "val list \<Rightarrow> val" where
  "getAggregateError errors = VAggregateError errors"

section \<open>Calls\<close>

text \<open>
  A computation returns \<open>Some (Inr v, s)\<close> when it returns \<open>v\<close> in state \<open>s\<close>,
  \<open>Some (Inl e, s)\<close> when it raises \<open>e\<close>, and \<open>None\<close> when it does not return.
\<close>

type_synonym outcome = "((val + val) \<times> state) option"

definition seq :: "outcome \<Rightarrow> (val \<Rightarrow> state \<Rightarrow> outcome) \<Rightarrow> outcome" where
  "seq m k = (case m of None \<Rightarrow> None | Some (Inl e, s) \<Rightarrow> Some (Inl e, s) | Some (Inr v, s) \<Rightarrow> k v s)"

definition ok :: "state option \<Rightarrow> outcome" where
  "ok m = (case m of None \<Rightarrow> None | Some s \<Rightarrow> Some (Inr VUndefined, s))"

text \<open>
  The functions that call each other, and call user code, are written with the
  function \<open>rec\<close> that runs a nested call; \<open>exec\<close> below closes the recursion.
\<close>

datatype cmd =
    Call fn val val
  | Resolve nat val
  | DoResolve fn nat
  | NewPromise val
  | PromiseResolve val
  | ResAll nat nat val

definition apply_val :: "(cmd \<Rightarrow> state \<Rightarrow> outcome) \<Rightarrow> val \<Rightarrow> val \<Rightarrow> state \<Rightarrow> outcome" where
  "apply_val rec f v s =
     (case f of VFun g \<Rightarrow> rec (Call g v VUndefined) s | _ \<Rightarrow> Some (Inl not_a_function, s))"

fun run_calls ::
  "(cmd \<Rightarrow> state \<Rightarrow> outcome) \<Rightarrow> call list \<Rightarrow> val option \<Rightarrow> val \<Rightarrow> val \<Rightarrow> state \<Rightarrow> outcome" where
  "run_calls rec [] t a b s =
     (case t of None \<Rightarrow> Some (Inr VUndefined, s) | Some e \<Rightarrow> Some (Inl e, s))"
| "run_calls rec (Succeed v # cs) t a b s =
     seq (apply_val rec a v s) (\<lambda>r s'. run_calls rec cs t a b s')"
| "run_calls rec (Fail v # cs) t a b s =
     seq (apply_val rec b v s) (\<lambda>r s'. run_calls rec cs t a b s')"

definition resolve_body :: "(cmd \<Rightarrow> state \<Rightarrow> outcome) \<Rightarrow> nat \<Rightarrow> val \<Rightarrow> state \<Rightarrow> outcome" where
  "resolve_body rec self newValue s =
     (if newValue = VPromise self then ok (reject self self_resolution_error s)
      else if is_objfun newValue then
        (case getThen newValue of
           Inl e \<Rightarrow> ok (reject self e s)
         | Inr then' \<Rightarrow>
             if then' = VFun ProtoThen \<and> instanceof_Promise newValue then
               ok (finale self (upd self (\<lambda>ob. ob\<lparr>p_state := 3, p_value := newValue\<rparr>) s))
             else
               (case then' of
                  VFun f \<Rightarrow> rec (DoResolve (bind_this f newValue) self) s
                | _ \<Rightarrow> ok (finale self (upd self (\<lambda>ob. ob\<lparr>p_state := 1, p_value := newValue\<rparr>) s))))
      else ok (finale self (upd self (\<lambda>ob. ob\<lparr>p_state := 1, p_value := newValue\<rparr>) s)))"

text \<open>
  \<open>doResolve\<close>: \<open>done\<close> is a new flag; the two closures are \<open>ResolveFn\<close> and
  \<open>RejectFn\<close> with the flag and the promise. \<open>tryCallTwo\<close> turns an exception of
  \<open>fn\<close> into \<open>IS_ERROR\<close>.
\<close>

definition doResolve_body :: "(cmd \<Rightarrow> state \<Rightarrow> outcome) \<Rightarrow> fn \<Rightarrow> nat \<Rightarrow> state \<Rightarrow> outcome" where
  "doResolve_body rec f pr s =
     (let l = length (latches s) in
      case rec (Call f (VFun (ResolveFn l pr)) (VFun (RejectFn l pr)))
             (s\<lparr>latches := latches s @ [False]\<rparr>) of
        None \<Rightarrow> None
      | Some (Inl ex, s1) \<Rightarrow>
          if \<not> latches s1 ! l then ok (reject pr ex (s1\<lparr>latches := (latches s1)[l := True]\<rparr>))
          else Some (Inr VUndefined, s1)
      | Some (Inr r, s1) \<Rightarrow> Some (Inr VUndefined, s1))"

definition constructor_error :: val where
  "constructor_error = VTypeError ''Promise constructor argument is not a function''"

definition new_Promise_body :: "(cmd \<Rightarrow> state \<Rightarrow> outcome) \<Rightarrow> val \<Rightarrow> state \<Rightarrow> outcome" where
  "new_Promise_body rec f s =
     (case f of
        VFun g \<Rightarrow>
          (case alloc s of (p, s1) \<Rightarrow>
             if g = Noop then Some (Inr (VPromise p), s1)
             else seq (rec (DoResolve g p) s1) (\<lambda>r s2. Some (Inr (VPromise p), s2)))
      | _ \<Rightarrow> Some (Inl constructor_error, s))"

text \<open>
  \<open>Promise.resolve\<close>. The executor of the \<open>catch\<close> branch,
  \<open>function (resolve, reject) { reject(ex) }\<close>, is \<open>Script [Fail ex] None\<close>.
\<close>

definition Promise_resolve_body :: "(cmd \<Rightarrow> state \<Rightarrow> outcome) \<Rightarrow> val \<Rightarrow> state \<Rightarrow> outcome" where
  "Promise_resolve_body rec v s =
     (case v of
        VPromise q \<Rightarrow> Some (Inr v, s)
      | VNull \<Rightarrow> Some (Inr (VPromise NULL), s)
      | VUndefined \<Rightarrow> Some (Inr (VPromise UNDEFINED), s)
      | VBool b \<Rightarrow> Some (Inr (VPromise (if b then TRUE else FALSE)), s)
      | _ \<Rightarrow>
          if v = VNum 0 then Some (Inr (VPromise ZERO), s)
          else if v = VStr [] then Some (Inr (VPromise EMPTYSTRING), s)
          else if is_objfun v then
            (case read_then v of
               Inl ex \<Rightarrow> rec (NewPromise (VFun (Script [Fail ex] None))) s
             | Inr (VFun f) \<Rightarrow> rec (NewPromise (VFun (bind_this f v))) s
             | Inr _ \<Rightarrow> (case valuePromise v s of (p, s') \<Rightarrow> Some (Inr (VPromise p), s')))
          else (case valuePromise v s of (p, s') \<Rightarrow> Some (Inr (VPromise p), s')))"

text \<open>\<open>p.then(onF, onR)\<close> for a value \<open>p\<close> that a call has returned.\<close>

definition then_val :: "val \<Rightarrow> val \<Rightarrow> val \<Rightarrow> state \<Rightarrow> outcome" where
  "then_val p onF onR s =
     (case p of
        VPromise q \<Rightarrow>
          (case then_method q onF onR s of
             None \<Rightarrow> None
           | Some (r, s') \<Rightarrow> Some (Inr (VPromise r), s'))
      | _ \<Rightarrow> Some (Inl not_a_function, s))"

text \<open>\<open>res(i, val)\<close> of the \<open>Promise.all\<close> call whose variables are \<open>all_ctxs s ! c\<close>.\<close>

definition res_store :: "(cmd \<Rightarrow> state \<Rightarrow> outcome) \<Rightarrow> nat \<Rightarrow> nat \<Rightarrow> val \<Rightarrow> state \<Rightarrow> outcome" where
  "res_store rec c i v s =
     (let ctx = all_ctxs s ! c;
          args = (all_args ctx)[i := v];
          remaining = all_remaining ctx - 1;
          s0 = s\<lparr>all_ctxs := (all_ctxs s)[c := ctx\<lparr>all_args := args, all_remaining := remaining\<rparr>]\<rparr>
      in if remaining = 0 then apply_val rec (all_resolve ctx) (VArr args) s0
         else Some (Inr VUndefined, s0))"

definition res_body :: "(cmd \<Rightarrow> state \<Rightarrow> outcome) \<Rightarrow> nat \<Rightarrow> nat \<Rightarrow> val \<Rightarrow> state \<Rightarrow> outcome" where
  "res_body rec c i v s =
     (if is_objfun v then
        (case v of
           VPromise q0 \<Rightarrow>
             (case deref (length (heap s)) (heap s) q0 of
                None \<Rightarrow> None
              | Some q \<Rightarrow>
                  if p_state (heap s ! q) = 1 then rec (ResAll c i (p_value (heap s ! q))) s
                  else
                    seq (if p_state (heap s ! q) = 2
                         then apply_val rec (all_reject (all_ctxs s ! c)) (p_value (heap s ! q)) s
                         else Some (Inr VUndefined, s))
                      (\<lambda>r s1.
                         seq (then_val (VPromise q) (VFun (AllRes c i)) (all_reject (all_ctxs s1 ! c)) s1)
                           (\<lambda>r s2. Some (Inr VUndefined, s2))))
         | _ \<Rightarrow>
             (case read_then v of
                Inl e \<Rightarrow> Some (Inl e, s)
              | Inr (VFun f) \<Rightarrow>
                  seq (rec (NewPromise (VFun (bind_this f v))) s)
                    (\<lambda>p s1.
                       seq (then_val p (VFun (AllRes c i)) (all_reject (all_ctxs s1 ! c)) s1)
                         (\<lambda>r s2. Some (Inr VUndefined, s2)))
              | Inr _ \<Rightarrow> res_store rec c i v s))
      else res_store rec c i v s)"

fun all_loop :: "(cmd \<Rightarrow> state \<Rightarrow> outcome) \<Rightarrow> nat \<Rightarrow> nat list \<Rightarrow> state \<Rightarrow> outcome" where
  "all_loop rec c [] s = Some (Inr VUndefined, s)"
| "all_loop rec c (i # is) s =
     seq (rec (ResAll c i (all_args (all_ctxs s ! c) ! i)) s) (\<lambda>r s'. all_loop rec c is s')"

text \<open>
  \<open>values.forEach(function (value) { Promise.resolve(value).then(a, b) })\<close>, the loop
  of \<open>Promise.race\<close> and of \<open>Promise.any\<close>.
\<close>

fun race_each :: "(cmd \<Rightarrow> state \<Rightarrow> outcome) \<Rightarrow> val list \<Rightarrow> val \<Rightarrow> val \<Rightarrow> state \<Rightarrow> outcome" where
  "race_each rec [] a b s = Some (Inr VUndefined, s)"
| "race_each rec (v # vs) a b s =
     seq (rec (PromiseResolve v) s)
       (\<lambda>q s1. seq (then_val q a b s1) (\<lambda>r s2. race_each rec vs a b s2))"

text \<open>
  Calling the function \<open>f\<close> with the arguments \<open>a\<close> and \<open>b\<close>. Called with no
  \<open>this\<close> (the module is in strict mode), \<open>Promise.prototype.then\<close> raises when it
  reads \<open>this.constructor\<close>. Bound to a promise it is \<open>then\<close>; bound to another
  object it goes to \<open>safeThen\<close>, which gives its executor to the constructor of the
  object, \<open>Object\<close>, and that does not call it: nothing happens, and the object made,
  which the library never uses, is \<open>VObj None\<close> here.
\<close>

definition call_body ::
  "env \<Rightarrow> (cmd \<Rightarrow> state \<Rightarrow> outcome) \<Rightarrow> fn \<Rightarrow> val \<Rightarrow> val \<Rightarrow> state \<Rightarrow> outcome" where
  "call_body E rec f a b s =
     (case f of
        Noop \<Rightarrow> Some (Inr VUndefined, s)
      | ProtoThen \<Rightarrow> Some (Inl (VTypeError ''this is undefined''), s)
      | BoundThen obj \<Rightarrow>
          (case obj of
             VPromise q \<Rightarrow> then_val obj a b s
           | VUndefined \<Rightarrow> Some (Inl (VTypeError ''this is undefined''), s)
           | VNull \<Rightarrow> Some (Inl (VTypeError ''this is null''), s)
           | _ \<Rightarrow> Some (Inr (VObj None), s))
      | ResolveFn l p \<Rightarrow>
          if latches s ! l then Some (Inr VUndefined, s)
          else rec (Resolve p a) (s\<lparr>latches := (latches s)[l := True]\<rparr>)
      | RejectFn l p \<Rightarrow>
          if latches s ! l then Some (Inr VUndefined, s)
          else ok (reject p a (s\<lparr>latches := (latches s)[l := True]\<rparr>))
      | UserFn h \<Rightarrow> Some (E h a, s)
      | Script cs t \<Rightarrow> run_calls rec cs t a b s
      | AllExec xs \<Rightarrow>
          if length xs = 0 then apply_val rec a (VArr []) s
          else
            all_loop rec (length (all_ctxs s)) [0..<length xs]
              (s\<lparr>all_ctxs := all_ctxs s @
                   [\<lparr> all_args = xs, all_remaining = int (length xs),
                      all_resolve = a, all_reject = b \<rparr>]\<rparr>)
      | AllRes c i \<Rightarrow> seq (rec (ResAll c i a) s) (\<lambda>r s'. Some (Inr VUndefined, s'))
      | OnSettledFulfill \<Rightarrow> Some (Inr (VRecord True a), s)
      | OnSettledReject \<Rightarrow> Some (Inr (VRecord False a), s)
      | RaceExec xs \<Rightarrow> race_each rec xs a b s
      | AnyExec xs \<Rightarrow>
          (let c = length (any_ctxs s);
               s0 = s\<lparr>any_ctxs := any_ctxs s @
                      [\<lparr> any_length = length xs, any_hasResolved = False,
                         any_rejectionReasons = [], any_resolve = a, any_reject = b \<rparr>]\<rparr>
           in if length xs = 0 then
                seq (apply_val rec b (getAggregateError []) s0) (\<lambda>r s'. Some (Inr VUndefined, s'))
              else race_each rec xs (VFun (ResolveOnce c)) (VFun (RejectionCheck c)) s0)
      | ResolveOnce c \<Rightarrow>
          if \<not> any_hasResolved (any_ctxs s ! c) then
            seq (apply_val rec (any_resolve (any_ctxs s ! c)) a
                   (s\<lparr>any_ctxs := (any_ctxs s)[c := (any_ctxs s ! c)\<lparr>any_hasResolved := True\<rparr>]\<rparr>))
              (\<lambda>r s'. Some (Inr VUndefined, s'))
          else Some (Inr VUndefined, s)
      | RejectionCheck c \<Rightarrow>
          (let ctx = any_ctxs s ! c;
               reasons = any_rejectionReasons ctx @ [a];
               s0 = s\<lparr>any_ctxs := (any_ctxs s)[c := ctx\<lparr>any_rejectionReasons := reasons\<rparr>]\<rparr>
           in if length reasons = any_length ctx then
                seq (apply_val rec (any_reject ctx) (getAggregateError reasons) s0)
                  (\<lambda>r s'. Some (Inr VUndefined, s'))
              else Some (Inr VUndefined, s0)))"

definition cmd_body :: "env \<Rightarrow> (cmd \<Rightarrow> state \<Rightarrow> outcome) \<Rightarrow> cmd \<Rightarrow> state \<Rightarrow> outcome" where
  "cmd_body E rec c s =
     (case c of
        Call f a b \<Rightarrow> call_body E rec f a b s
      | Resolve self v \<Rightarrow> resolve_body rec self v s
      | DoResolve f p \<Rightarrow> doResolve_body rec f p s
      | NewPromise f \<Rightarrow> new_Promise_body rec f s
      | PromiseResolve v \<Rightarrow> Promise_resolve_body rec v s
      | ResAll k i v \<Rightarrow> res_body rec k i v s)"

text \<open>
  \<open>exec E n c s\<close> runs \<open>c\<close> with calls nested at most \<open>n\<close> deep: \<open>None\<close> is a
  computation that has not returned within that depth, or never returns (a loop of
  \<open>handle\<close> that does not end).
\<close>

primrec exec :: "env \<Rightarrow> nat \<Rightarrow> cmd \<Rightarrow> state \<Rightarrow> outcome" where
  "exec E 0 = (\<lambda>c s. None)"
| "exec E (Suc n) = cmd_body E (exec E n)"

definition callf :: "env \<Rightarrow> nat \<Rightarrow> fn \<Rightarrow> val \<Rightarrow> val \<Rightarrow> state \<Rightarrow> outcome" where
  "callf E n f a b s = exec E n (Call f a b) s"

definition resolve :: "env \<Rightarrow> nat \<Rightarrow> nat \<Rightarrow> val \<Rightarrow> state \<Rightarrow> outcome" where
  "resolve E n self newValue s = exec E n (Resolve self newValue) s"

definition doResolve :: "env \<Rightarrow> nat \<Rightarrow> fn \<Rightarrow> nat \<Rightarrow> state \<Rightarrow> outcome" where
  "doResolve E n f p s = exec E n (DoResolve f p) s"

definition new_Promise :: "env \<Rightarrow> nat \<Rightarrow> val \<Rightarrow> state \<Rightarrow> outcome" where
  "new_Promise E n f s = exec E n (NewPromise f) s"

definition Promise_resolve :: "env \<Rightarrow> nat \<Rightarrow> val \<Rightarrow> state \<Rightarrow> outcome" where
  "Promise_resolve E n v s = exec E n (PromiseResolve v) s"

section \<open>The ES6 layer\<close>

definition Promise_reject :: "env \<Rightarrow> nat \<Rightarrow> val \<Rightarrow> state \<Rightarrow> outcome" where
  "Promise_reject E n v s = new_Promise E n (VFun (Script [Fail v] None)) s"

definition Promise_all :: "env \<Rightarrow> nat \<Rightarrow> val list \<Rightarrow> state \<Rightarrow> outcome" where
  "Promise_all E n arr s = new_Promise E n (VFun (AllExec arr)) s"

definition Promise_race :: "env \<Rightarrow> nat \<Rightarrow> val list \<Rightarrow> state \<Rightarrow> outcome" where
  "Promise_race E n values s = new_Promise E n (VFun (RaceExec values)) s"

definition Promise_any :: "env \<Rightarrow> nat \<Rightarrow> val list \<Rightarrow> state \<Rightarrow> outcome" where
  "Promise_any E n values s = new_Promise E n (VFun (AnyExec values)) s"

definition onSettledFulfill :: "val \<Rightarrow> val" where
  "onSettledFulfill v = VRecord True v"

definition onSettledReject :: "val \<Rightarrow> val" where
  "onSettledReject r = VRecord False r"

definition mapAllSettled :: "env \<Rightarrow> nat \<Rightarrow> val \<Rightarrow> state \<Rightarrow> outcome" where
  "mapAllSettled E n item s =
     (if is_objfun item then
        (case item of
           VPromise q \<Rightarrow> then_val item (VFun OnSettledFulfill) (VFun OnSettledReject) s
         | _ \<Rightarrow>
             (case read_then item of
                Inl e \<Rightarrow> Some (Inl e, s)
              | Inr (VFun f) \<Rightarrow>
                  seq (new_Promise E n (VFun (bind_this f item)) s)
                    (\<lambda>p s1. then_val p (VFun OnSettledFulfill) (VFun OnSettledReject) s1)
              | Inr _ \<Rightarrow> Some (Inr (onSettledFulfill item), s)))
      else Some (Inr (onSettledFulfill item), s))"

text \<open>\<open>Array.prototype.map\<close>: in order, stopping at the first exception.\<close>

fun map_items :: "(val \<Rightarrow> state \<Rightarrow> outcome) \<Rightarrow> val list \<Rightarrow> state \<Rightarrow> ((val + val list) \<times> state) option" where
  "map_items f [] s = Some (Inr [], s)"
| "map_items f (x # xs) s =
     (case f x s of
        None \<Rightarrow> None
      | Some (Inl e, s1) \<Rightarrow> Some (Inl e, s1)
      | Some (Inr y, s1) \<Rightarrow>
          (case map_items f xs s1 of
             None \<Rightarrow> None
           | Some (Inl e, s2) \<Rightarrow> Some (Inl e, s2)
           | Some (Inr ys, s2) \<Rightarrow> Some (Inr (y # ys), s2)))"

definition Promise_allSettled :: "env \<Rightarrow> nat \<Rightarrow> val list \<Rightarrow> state \<Rightarrow> outcome" where
  "Promise_allSettled E n iterable s =
     (case map_items (mapAllSettled E n) iterable s of
        None \<Rightarrow> None
      | Some (Inl e, s1) \<Rightarrow> Some (Inl e, s1)
      | Some (Inr ys, s1) \<Rightarrow> Promise_all E n ys s1)"

text \<open>
  The state when the module has been loaded: the six cached promises, made by
  \<open>valuePromise\<close>, and nothing else.
\<close>

definition init_state :: state where
  "init_state =
     \<lparr> heap = map (\<lambda>v. fresh_promise\<lparr>p_state := 1, p_value := v\<rparr>)
                [VBool True, VBool False, VNull, VUndefined, VNum 0, VStr []],
       latches = [], queue = [], all_ctxs = [], any_ctxs = [] \<rparr>"

section \<open>The scheduler\<close>

text \<open>The closure that \<open>handleResolved\<close> gives to \<open>asap\<close>, run by the scheduler.\<close>

definition run_task :: "env \<Rightarrow> nat \<Rightarrow> nat \<times> handler \<Rightarrow> state \<Rightarrow> outcome" where
  "run_task E n t s =
     (case t of (self, deferred) \<Rightarrow>
        (case (if p_state (heap s ! self) = 1 then onFulfilled deferred else onRejected deferred) of
           None \<Rightarrow>
             if p_state (heap s ! self) = 1
             then resolve E n (promise deferred) (p_value (heap s ! self)) s
             else ok (reject (promise deferred) (p_value (heap s ! self)) s)
         | Some cb \<Rightarrow>
             (case callf E n cb (p_value (heap s ! self)) VUndefined s of
                None \<Rightarrow> None
              | Some (Inl ex, s1) \<Rightarrow> ok (reject (promise deferred) ex s1)
              | Some (Inr ret, s1) \<Rightarrow> resolve E n (promise deferred) ret s1)))"

text \<open>The scheduler runs the first closure of the queue; \<open>run_queue k\<close> runs \<open>k\<close> of them.\<close>

definition step :: "env \<Rightarrow> nat \<Rightarrow> state \<Rightarrow> outcome" where
  "step E n s =
     (case queue s of
        [] \<Rightarrow> Some (Inr VUndefined, s)
      | t # ts \<Rightarrow> run_task E n t (s\<lparr>queue := ts\<rparr>))"

fun run_queue :: "env \<Rightarrow> nat \<Rightarrow> nat \<Rightarrow> state \<Rightarrow> outcome" where
  "run_queue E n 0 s = Some (Inr VUndefined, s)"
| "run_queue E n (Suc k) s = seq (step E n s) (\<lambda>r s'. run_queue E n k s')"

section \<open>Activity of the program\<close>

text \<open>
  What happens to a state in the course of time: a call from outside (a constructor
  call, a call of \<open>Promise.resolve\<close>, a call of any function value with two
  arguments), a call of \<open>then\<close> on a promise, and the scheduler running the first
  closure of its queue.
\<close>

datatype event = Do cmd | Then nat val val | Tick

definition run_event :: "env \<Rightarrow> nat \<Rightarrow> event \<Rightarrow> state \<Rightarrow> outcome" where
  "run_event E n ev s =
     (case ev of
        Do c \<Rightarrow> exec E n c s
      | Then p onF onR \<Rightarrow> then_val (VPromise p) onF onR s
      | Tick \<Rightarrow> step E n s)"

fun run_events :: "env \<Rightarrow> nat \<Rightarrow> event list \<Rightarrow> state \<Rightarrow> state option" where
  "run_events E n [] s = Some s"
| "run_events E n (ev # evs) s =
     (case run_event E n ev s of
        None \<Rightarrow> None
      | Some (r, s') \<Rightarrow> run_events E n evs s')"

text \<open>The environment in which every user function of one argument returns its argument.\<close>

definition identity_env :: env where
  "identity_env h v = Inr v"

text \<open>The state and the value of the promise \<open>p\<close> after a run, if the run has ended.\<close>

definition settled :: "nat \<Rightarrow> state option \<Rightarrow> (nat \<times> val) option" where
  "settled p m = (case m of None \<Rightarrow> None | Some s \<Rightarrow> Some (p_state (heap s ! p), p_value (heap s ! p)))"

text \<open>
  Two pending promises 6 and 7 are made and passed to \<open>Promise.any\<close>, which returns
  promise 8; then 7 is rejected with \<open>b\<close>, then 6 with \<open>a\<close>, and the scheduler runs
  the two closures.
\<close>

definition any_late_input_first :: "event list" where
  "any_late_input_first =
     [Do (NewPromise (VFun (Script [] None))),
      Do (NewPromise (VFun (Script [] None))),
      Do (NewPromise (VFun (AnyExec [VPromise 6, VPromise 7]))),
      Do (Call (RejectFn 1 7) (VStr ''b'') VUndefined),
      Do (Call (RejectFn 0 6) (VStr ''a'') VUndefined),
      Tick, Tick]"

text \<open>
  The same with \<open>Promise.all\<close>: 6 and 7 are passed to it, 7 is fulfilled with \<open>b\<close>,
  then 6 with \<open>a\<close>, and the scheduler runs the two closures.
\<close>

definition all_late_input_first :: "event list" where
  "all_late_input_first =
     [Do (NewPromise (VFun (Script [] None))),
      Do (NewPromise (VFun (Script [] None))),
      Do (NewPromise (VFun (AllExec [VPromise 6, VPromise 7]))),
      Do (Call (ResolveFn 1 7) (VStr ''b'') VUndefined),
      Do (Call (ResolveFn 0 6) (VStr ''a'') VUndefined),
      Tick, Tick]"

text \<open>The state that a list of events leads to from the state of the loaded module.\<close>

definition state_after :: "event list \<Rightarrow> state" where
  "state_after evs =
     (case run_events identity_env 7 evs init_state of Some s \<Rightarrow> s | None \<Rightarrow> init_state)"

text \<open>
  A value that is neither a promise of this implementation nor a thenable: reading its
  \<open>then\<close> property gives no function and does not raise.
\<close>

definition plain :: "val \<Rightarrow> bool" where
  "plain v \<longleftrightarrow>
     \<not> instanceof_Promise v \<and>
     (case read_then v of Inl e \<Rightarrow> False | Inr t \<Rightarrow> \<not> is_callable t)"

text \<open>
  An input of \<open>Promise.all\<close> that has settled in the heap \<open>h\<close>: a plain value, or a
  promise that is fulfilled with a plain value or rejected; whether it is rejected, and
  its value or reason.
\<close>

definition settled_input :: "promise_obj list \<Rightarrow> val \<Rightarrow> bool" where
  "settled_input h x \<longleftrightarrow>
     (case x of
        VPromise q \<Rightarrow> q < length h \<and> (p_state (h ! q) = 1 \<and> plain (p_value (h ! q)) \<or> p_state (h ! q) = 2)
      | _ \<Rightarrow> plain x)"

definition input_rejected :: "promise_obj list \<Rightarrow> val \<Rightarrow> bool" where
  "input_rejected h x \<longleftrightarrow> (case x of VPromise q \<Rightarrow> p_state (h ! q) = 2 | _ \<Rightarrow> False)"

definition input_value :: "promise_obj list \<Rightarrow> val \<Rightarrow> val" where
  "input_value h x = (case x of VPromise q \<Rightarrow> p_value (h ! q) | _ \<Rightarrow> x)"

text \<open>
  The closure that is scheduled for the input \<open>q\<close> at index \<open>i\<close> of the \<open>Promise.all\<close>
  call \<open>c\<close>, whose promise is \<open>P\<close> and whose \<open>done\<close> flag is \<open>L\<close>, when \<open>q\<close> has
  settled: \<open>r\<close> is the promise that \<open>then\<close> returned.
\<close>

definition all_task :: "nat \<Rightarrow> nat \<Rightarrow> nat \<Rightarrow> nat \<times> nat \<times> nat \<Rightarrow> nat \<times> handler" where
  "all_task c L P t =
     (case t of (q, i, r) \<Rightarrow> (q, Handler (VFun (AllRes c i)) (VFun (RejectFn L P)) r))"

text \<open>
  The \<open>Promise.all\<close> call \<open>c\<close> has not settled and waits for as many inputs as there
  are closures \<open>ts\<close> at the head of the queue; each of these is the closure of an input
  that has settled, and the promise that \<open>then\<close> returned for it is as \<open>then\<close> made
  it.
\<close>

definition all_waiting :: "nat \<Rightarrow> nat \<Rightarrow> nat \<Rightarrow> (nat \<times> nat \<times> nat) list \<Rightarrow> state \<Rightarrow> bool" where
  "all_waiting c L P ts s \<longleftrightarrow>
     ts \<noteq> [] \<and> c < length (all_ctxs s) \<and>
     all_resolve (all_ctxs s ! c) = VFun (ResolveFn L P) \<and>
     all_reject (all_ctxs s ! c) = VFun (RejectFn L P) \<and>
     all_remaining (all_ctxs s ! c) = int (length ts) \<and>
     L < length (latches s) \<and> \<not> latches s ! L \<and> P < length (heap s) \<and>
     take (length ts) (queue s) = map (all_task c L P) ts \<and>
     (\<forall>(q, i, r)\<in>set ts.
         q < length (heap s) \<and> q \<noteq> P \<and>
         (p_state (heap s ! q) = 1 \<and> plain (p_value (heap s ! q)) \<or> p_state (heap s ! q) = 2) \<and>
         r < length (heap s) \<and> p_deferredState (heap s ! r) = 0 \<and> r \<noteq> P \<and>
         r \<notin> fst ` set ts) \<and>
     distinct (map (\<lambda>t. snd (snd t)) ts)"

text \<open>The array that the deliveries \<open>ts\<close> of fulfilled inputs leave in \<open>args\<close>.\<close>

fun deliver_args :: "promise_obj list \<Rightarrow> (nat \<times> nat \<times> nat) list \<Rightarrow> val list \<Rightarrow> val list" where
  "deliver_args h [] args = args"
| "deliver_args h ((q, i, r) # ts) args = deliver_args h ts (args[i := p_value (h ! q)])"

text \<open>
  Two pending promises 6 and 7 are made; 7 is rejected with \<open>b\<close>, then 6 with \<open>a\<close>;
  then \<open>Promise.all\<close> of 6 and 7 is called and returns promise 8.
\<close>

definition all_late_rejection_first :: "event list" where
  "all_late_rejection_first =
     [Do (NewPromise (VFun (Script [] None))),
      Do (NewPromise (VFun (Script [] None))),
      Do (Call (RejectFn 1 7) (VStr ''b'') VUndefined),
      Do (Call (RejectFn 0 6) (VStr ''a'') VUndefined),
      Do (NewPromise (VFun (AllExec [VPromise 6, VPromise 7])))]"

text \<open>
  Two pending promises 6 and 7 are made and passed to \<open>Promise.all\<close>, which returns
  promise 8; then 7 is fulfilled with \<open>b\<close>, then 6 with \<open>a\<close>.
\<close>

definition all_fulfilled_in_reverse :: "event list" where
  "all_fulfilled_in_reverse =
     [Do (NewPromise (VFun (Script [] None))),
      Do (NewPromise (VFun (Script [] None))),
      Do (NewPromise (VFun (AllExec [VPromise 6, VPromise 7]))),
      Do (Call (ResolveFn 1 7) (VStr ''b'') VUndefined),
      Do (Call (ResolveFn 0 6) (VStr ''a'') VUndefined)]"

text \<open>\<open>Promise.reject('boom')\<close> and \<open>Promise.resolve(2)\<close>: the promises 6 and 7.\<close>

definition boom_and_two :: "event list" where
  "boom_and_two =
     [Do (NewPromise (VFun (Script [Fail (VStr ''boom'')] None))),
      Do (PromiseResolve (VNum 2))]"

section \<open>Ignoring the callbacks of a settled promise\<close>

text \<open>
  The two callbacks that a \<open>doResolve\<close> call makes share its \<open>done\<close> flag, \<open>l\<close>. A
  call of one of them is \<open>is_callback l\<close>.
\<close>

fun is_callback :: "nat \<Rightarrow> cmd \<Rightarrow> bool" where
  "is_callback l (Call f a b) =
     (case f of ResolveFn l' q \<Rightarrow> l' = l | RejectFn l' q \<Rightarrow> l' = l | _ \<Rightarrow> False)"
| "is_callback l c = False"

text \<open>
  What the specification says of the calls after the first: they are ignored.
  \<open>exec_ignoring l\<close> runs a computation as \<open>exec\<close> does, but in it a call of either
  callback of \<open>l\<close> does nothing and returns, whoever makes it and however deep in
  other calls.
\<close>

primrec exec_ignoring :: "nat \<Rightarrow> env \<Rightarrow> nat \<Rightarrow> cmd \<Rightarrow> state \<Rightarrow> outcome" where
  "exec_ignoring l E 0 = (\<lambda>c s. None)"
| "exec_ignoring l E (Suc n) =
     (\<lambda>c s. if is_callback l c then Some (Inr VUndefined, s)
            else cmd_body E (exec_ignoring l E n) c s)"

text \<open>
  The state in which \<open>new Promise\<close> has made the pending promise 6, with the \<open>done\<close>
  flag 0, and a thenable whose \<open>then\<close> is the \<open>reject\<close> callback of that promise.
\<close>

definition one_pending :: state where
  "one_pending = state_after [Do (NewPromise (VFun (Script [] None)))]"

definition own_reject_thenable :: val where
  "own_reject_thenable = VObj (Some (VFun (RejectFn 0 6)))"

section \<open>What a program can reach\<close>

text \<open>
  A value is within reach of the program and gives no hold of the promise \<open>p\<close> when
  every promise and every \<open>Promise.all\<close> or \<open>Promise.any\<close> call it refers to
  exists (there are \<open>nh\<close> promises, \<open>na\<close> and \<open>nb\<close> calls), and no function in it is
  one of the two callbacks that a \<open>doResolve\<close> call made for \<open>p\<close>.
\<close>

fun ok_val :: "nat \<Rightarrow> nat \<Rightarrow> nat \<Rightarrow> nat \<Rightarrow> val \<Rightarrow> bool"
and ok_fn :: "nat \<Rightarrow> nat \<Rightarrow> nat \<Rightarrow> nat \<Rightarrow> fn \<Rightarrow> bool"
and ok_call :: "nat \<Rightarrow> nat \<Rightarrow> nat \<Rightarrow> nat \<Rightarrow> call \<Rightarrow> bool" where
  "ok_val p nh na nb (VArr xs) = (\<forall>x\<in>set xs. ok_val p nh na nb x)"
| "ok_val p nh na nb (VRecord b v) = ok_val p nh na nb v"
| "ok_val p nh na nb (VAggregateError xs) = (\<forall>x\<in>set xs. ok_val p nh na nb x)"
| "ok_val p nh na nb (VPromise q) = (q < nh)"
| "ok_val p nh na nb (VObj None) = True"
| "ok_val p nh na nb (VObj (Some t)) = ok_val p nh na nb t"
| "ok_val p nh na nb (VThrowing e) = ok_val p nh na nb e"
| "ok_val p nh na nb (VFun f) = ok_fn p nh na nb f"
| "ok_val p nh na nb v = True"
| "ok_fn p nh na nb (ResolveFn l q) = (q \<noteq> p \<and> q < nh)"
| "ok_fn p nh na nb (RejectFn l q) = (q \<noteq> p \<and> q < nh)"
| "ok_fn p nh na nb (BoundThen v) = ok_val p nh na nb v"
| "ok_fn p nh na nb (Script cs None) = (\<forall>c\<in>set cs. ok_call p nh na nb c)"
| "ok_fn p nh na nb (Script cs (Some e)) = ((\<forall>c\<in>set cs. ok_call p nh na nb c) \<and> ok_val p nh na nb e)"
| "ok_fn p nh na nb (AllExec xs) = (\<forall>x\<in>set xs. ok_val p nh na nb x)"
| "ok_fn p nh na nb (AllRes c i) = (c < na)"
| "ok_fn p nh na nb (RaceExec xs) = (\<forall>x\<in>set xs. ok_val p nh na nb x)"
| "ok_fn p nh na nb (AnyExec xs) = (\<forall>x\<in>set xs. ok_val p nh na nb x)"
| "ok_fn p nh na nb (ResolveOnce c) = (c < nb)"
| "ok_fn p nh na nb (RejectionCheck c) = (c < nb)"
| "ok_fn p nh na nb f = True"
| "ok_call p nh na nb (Succeed v) = ok_val p nh na nb v"
| "ok_call p nh na nb (Fail v) = ok_val p nh na nb v"

text \<open>The same for a Handler, whose promise moreover is not \<open>p\<close>.\<close>

definition ok_handler :: "nat \<Rightarrow> nat \<Rightarrow> nat \<Rightarrow> nat \<Rightarrow> handler \<Rightarrow> bool" where
  "ok_handler p nh na nb d \<longleftrightarrow>
     promise d \<noteq> p \<and> promise d < nh \<and>
     (case onFulfilled d of None \<Rightarrow> True | Some f \<Rightarrow> ok_fn p nh na nb f) \<and>
     (case onRejected d of None \<Rightarrow> True | Some f \<Rightarrow> ok_fn p nh na nb f)"

text \<open>A value within reach in the state \<open>s\<close>.\<close>

definition ok_in :: "nat \<Rightarrow> state \<Rightarrow> val \<Rightarrow> bool" where
  "ok_in p s v = ok_val p (length (heap s)) (length (all_ctxs s)) (length (any_ctxs s)) v"

definition ok_fn_in :: "nat \<Rightarrow> state \<Rightarrow> fn \<Rightarrow> bool" where
  "ok_fn_in p s f = ok_fn p (length (heap s)) (length (all_ctxs s)) (length (any_ctxs s)) f"

definition ok_handler_in :: "nat \<Rightarrow> state \<Rightarrow> handler \<Rightarrow> bool" where
  "ok_handler_in p s d = ok_handler p (length (heap s)) (length (all_ctxs s)) (length (any_ctxs s)) d"

text \<open>
  The promise \<open>p\<close> is pending and out of the program's hold: nothing stored in the
  state (the value or a Handler of a promise, a scheduled closure, a variable of a
  running \<open>Promise.all\<close> or \<open>Promise.any\<close> call) is one of its callbacks or a Handler
  whose promise it is, no closure is scheduled for it, the six cached promises
  exist, and every reference in the state is to something that exists.
\<close>

definition confined :: "nat \<Rightarrow> state \<Rightarrow> bool" where
  "confined p s \<longleftrightarrow>
     p < length (heap s) \<and> p_state (heap s ! p) = 0 \<and> EMPTYSTRING < length (heap s) \<and>
     (\<forall>ob\<in>set (heap s). ok_in p s (p_value ob) \<and> (\<forall>d\<in>set (p_deferreds ob). ok_handler_in p s d)) \<and>
     (\<forall>t\<in>set (queue s). fst t < length (heap s) \<and> fst t \<noteq> p \<and> ok_handler_in p s (snd t)) \<and>
     (\<forall>ctx\<in>set (all_ctxs s).
         ok_in p s (all_resolve ctx) \<and> ok_in p s (all_reject ctx) \<and>
         (\<forall>x\<in>set (all_args ctx). ok_in p s x)) \<and>
     (\<forall>ctx\<in>set (any_ctxs s).
         ok_in p s (any_resolve ctx) \<and> ok_in p s (any_reject ctx) \<and>
         (\<forall>x\<in>set (any_rejectionReasons ctx). ok_in p s x))"

text \<open>A command and an event that use only what is within reach and do not settle \<open>p\<close>.\<close>

definition ok_cmd :: "nat \<Rightarrow> state \<Rightarrow> cmd \<Rightarrow> bool" where
  "ok_cmd p s c =
     (case c of
        Call f a b \<Rightarrow> ok_fn_in p s f \<and> ok_in p s a \<and> ok_in p s b
      | Resolve q v \<Rightarrow> q \<noteq> p \<and> q < length (heap s) \<and> ok_in p s v
      | DoResolve f q \<Rightarrow> q \<noteq> p \<and> q < length (heap s) \<and> ok_fn_in p s f
      | NewPromise f \<Rightarrow> ok_in p s f
      | PromiseResolve v \<Rightarrow> ok_in p s v
      | ResAll c i v \<Rightarrow> c < length (all_ctxs s) \<and> ok_in p s v)"

definition ok_event :: "nat \<Rightarrow> state \<Rightarrow> event \<Rightarrow> bool" where
  "ok_event p s ev =
     (case ev of
        Do c \<Rightarrow> ok_cmd p s c
      | Then q onF onR \<Rightarrow> q < length (heap s) \<and> ok_in p s onF \<and> ok_in p s onR
      | Tick \<Rightarrow> True)"

text \<open>
  User functions make no callback of \<open>p\<close> out of nothing: what they return or raise
  refers to what existed in the state \<open>s\<close> or to what their argument refers to.
\<close>

definition env_ok :: "nat \<Rightarrow> state \<Rightarrow> env \<Rightarrow> bool" where
  "env_ok p s E \<longleftrightarrow>
     (\<forall>h a nh na nb.
        length (heap s) \<le> nh \<and> length (all_ctxs s) \<le> na \<and> length (any_ctxs s) \<le> nb \<and>
        ok_val p nh na nb a \<longrightarrow>
        (case E h a of Inl e \<Rightarrow> ok_val p nh na nb e | Inr v \<Rightarrow> ok_val p nh na nb v))"

text \<open>Every event of the run is within reach when it happens.\<close>

fun ok_events :: "nat \<Rightarrow> env \<Rightarrow> nat \<Rightarrow> event list \<Rightarrow> state \<Rightarrow> bool" where
  "ok_events p E n [] s = True"
| "ok_events p E n (ev # evs) s =
     (ok_event p s ev \<and>
      (case run_event E n ev s of None \<Rightarrow> True | Some (r, s') \<Rightarrow> ok_events p E n evs s'))"

text \<open>
  A state in which every reference is to something that exists, and the six cached
  promises exist: the states of a program that has loaded the module.
\<close>

definition closed_state :: "state \<Rightarrow> bool" where
  "closed_state s \<longleftrightarrow>
     EMPTYSTRING < length (heap s) \<and>
     (\<forall>ob\<in>set (heap s).
         ok_in (length (heap s)) s (p_value ob) \<and>
         (\<forall>d\<in>set (p_deferreds ob). ok_handler_in (length (heap s)) s d)) \<and>
     (\<forall>t\<in>set (queue s). fst t < length (heap s) \<and> ok_handler_in (length (heap s)) s (snd t)) \<and>
     (\<forall>ctx\<in>set (all_ctxs s).
         ok_in (length (heap s)) s (all_resolve ctx) \<and> ok_in (length (heap s)) s (all_reject ctx) \<and>
         (\<forall>x\<in>set (all_args ctx). ok_in (length (heap s)) s x)) \<and>
     (\<forall>ctx\<in>set (any_ctxs s).
         ok_in (length (heap s)) s (any_resolve ctx) \<and> ok_in (length (heap s)) s (any_reject ctx) \<and>
         (\<forall>x\<in>set (any_rejectionReasons ctx). ok_in (length (heap s)) s x))"

text \<open>
  The state after \<open>Promise.race([])\<close> has been called in the initial state; the call
  returns promise 6. Then a program registers a waiter on it (\<open>then\<close> returns promise
  7), makes promise 8 and resolves it with promise 6, registers a waiter on 8 (promise
  9), makes promise 10 by \<open>Promise.resolve(1)\<close> and registers a waiter on it (promise
  11), and the scheduler runs twice.
\<close>

definition race_of_nothing :: state where
  "race_of_nothing =
     (case Promise_race identity_env 3 [] init_state of Some (r, s) \<Rightarrow> s | None \<Rightarrow> init_state)"

definition waiting_on_race :: "event list" where
  "waiting_on_race =
     [Then 6 (VFun (UserFn 0)) (VFun (UserFn 1)),
      Do (NewPromise (VFun (Script [Succeed (VPromise 6)] None))),
      Then 8 (VFun (UserFn 0)) VUndefined,
      Do (PromiseResolve (VNum 1)),
      Then 10 (VFun (UserFn 0)) VUndefined,
      Tick,
      Tick]"

section \<open>Notions used in the proofs\<close>

text \<open>
  The \<open>done\<close> flags only grow: \<open>lle xs ys\<close> when \<open>ys\<close> has every flag of \<open>xs\<close>,
  and every flag set in \<open>xs\<close> is set in \<open>ys\<close>.
\<close>

definition lle :: "bool list \<Rightarrow> bool list \<Rightarrow> bool" where
  "lle xs ys \<longleftrightarrow> length xs \<le> length ys \<and> (\<forall>i<length xs. xs ! i \<longrightarrow> ys ! i)"

definition rec_le :: "(cmd \<Rightarrow> state \<Rightarrow> outcome) \<Rightarrow> bool" where
  "rec_le rec \<longleftrightarrow> (\<forall>c s r s'. rec c s = Some (r, s') \<longrightarrow> lle (latches s) (latches s'))"

text \<open>
  The \<open>done\<close> flag \<open>l\<close> is set in \<open>s\<close>, and two ways of running nested calls that
  give the same in every state in which it is set.
\<close>

definition latched :: "nat \<Rightarrow> state \<Rightarrow> bool" where
  "latched l s \<longleftrightarrow> l < length (latches s) \<and> latches s ! l"

definition agree :: "nat \<Rightarrow> (cmd \<Rightarrow> state \<Rightarrow> outcome) \<Rightarrow> (cmd \<Rightarrow> state \<Rightarrow> outcome) \<Rightarrow> bool" where
  "agree l rec rec' \<longleftrightarrow> (\<forall>c s. latched l s \<longrightarrow> rec c s = rec' c s)"

text \<open>The promises of \<open>s'\<close> are those of \<open>s\<close>, each with the state and the value it had.\<close>

definition same_outcomes :: "state \<Rightarrow> state \<Rightarrow> bool" where
  "same_outcomes s s' \<longleftrightarrow>
     length (heap s') = length (heap s) \<and>
     (\<forall>x. p_state (heap s' ! x) = p_state (heap s ! x) \<and> p_value (heap s' ! x) = p_value (heap s ! x))"

text \<open>
  The state \<open>s'\<close> has all the promises and calls of \<open>s\<close>, and the \<open>args\<close> of a
  \<open>Promise.all\<close> call of \<open>s\<close> has kept its length.
\<close>

definition grows :: "state \<Rightarrow> state \<Rightarrow> bool" where
  "grows s s' \<longleftrightarrow>
     length (heap s) \<le> length (heap s') \<and> length (all_ctxs s) \<le> length (all_ctxs s') \<and>
     length (any_ctxs s) \<le> length (any_ctxs s') \<and>
     (\<forall>c<length (all_ctxs s).
        length (all_args (all_ctxs s' ! c)) = length (all_args (all_ctxs s ! c)))"

definition ok_res :: "nat \<Rightarrow> state \<Rightarrow> val + val \<Rightarrow> bool" where
  "ok_res p s r = (case r of Inl e \<Rightarrow> ok_in p s e | Inr v \<Rightarrow> ok_in p s v)"

definition keeps :: "nat \<Rightarrow> state \<Rightarrow> outcome \<Rightarrow> bool" where
  "keeps p s m = (case m of None \<Rightarrow> True | Some (r, s') \<Rightarrow> confined p s' \<and> grows s s' \<and> ok_res p s' r)"

definition rec_keeps :: "nat \<Rightarrow> state \<Rightarrow> (cmd \<Rightarrow> state \<Rightarrow> outcome) \<Rightarrow> bool" where
  "rec_keeps p s0 rec \<longleftrightarrow>
     (\<forall>c s. confined p s \<and> grows s0 s \<and> ok_cmd p s c \<longrightarrow> keeps p s (rec c s))"

lemma seq_simps [simp]:
  "seq None k = None"
  "seq (Some (Inl e, s)) k = Some (Inl e, s)"
  "seq (Some (Inr v, s)) k = k v s"
  by (simp_all add: seq_def)

lemma ok_simps [simp]:
  "ok None = None"
  "ok (Some s) = Some (Inr VUndefined, s)"
  by (simp_all add: ok_def)

lemma exec_Suc: "exec E (Suc n) c s = cmd_body E (exec E n) c s"
  by simp

lemma callf_Suc: "callf E (Suc n) f a b s = call_body E (exec E n) f a b s"
  by (simp add: callf_def cmd_body_def)

lemma resolve_Suc: "resolve E (Suc n) p v s = resolve_body (exec E n) p v s"
  by (simp add: resolve_def cmd_body_def)

lemma doResolve_Suc: "doResolve E (Suc n) f p s = doResolve_body (exec E n) f p s"
  by (simp add: doResolve_def cmd_body_def)

lemma new_Promise_Suc: "new_Promise E (Suc n) f s = new_Promise_body (exec E n) f s"
  by (simp add: new_Promise_def cmd_body_def)

lemma Promise_resolve_Suc: "Promise_resolve E (Suc n) v s = Promise_resolve_body (exec E n) v s"
  by (simp add: Promise_resolve_def cmd_body_def)

lemma deref_settled: "p_state (h ! p) \<noteq> 3 \<Longrightarrow> deref k h p = Some p"
  by (simp add: deref.simps)

lemma handle_settled:
  "p_state (heap s ! p) \<noteq> 0 \<Longrightarrow> p_state (heap s ! p) \<noteq> 3 \<Longrightarrow>
   handle p d s = Some (s\<lparr>queue := queue s @ [(p, d)]\<rparr>)"
  by (simp add: handle_def deref_settled handleResolved_def)

lemma handle_each_settled:
  "p_state (heap s ! p) \<noteq> 0 \<Longrightarrow> p_state (heap s ! p) \<noteq> 3 \<Longrightarrow>
   handle_each p ds s = Some (s\<lparr>queue := queue s @ map (Pair p) ds\<rparr>)"
  by (induction ds arbitrary: s) (simp_all add: handle_settled)

lemma finale_settled:
  "p_state (heap s ! p) \<noteq> 0 \<Longrightarrow> p_state (heap s ! p) \<noteq> 3 \<Longrightarrow>
   finale p s =
     Some (if p_deferredState (heap s ! p) = 1 \<or> p_deferredState (heap s ! p) = 2
           then upd p (\<lambda>ob. ob\<lparr>p_deferreds := []\<rparr>)
                  (s\<lparr>queue := queue s @ map (Pair p) (p_deferreds (heap s ! p))\<rparr>)
           else s)"
  by (cases "p < length (heap s)") (simp_all add: finale_def handle_each_settled upd_def list_update_beyond)

lemma reject_result:
  "p < length (heap s) \<Longrightarrow>
   reject p v s =
     Some (if p_deferredState (heap s ! p) = 1 \<or> p_deferredState (heap s ! p) = 2
           then upd p (\<lambda>ob. ob\<lparr>p_state := 2, p_value := v, p_deferreds := []\<rparr>)
                  (s\<lparr>queue := queue s @ map (Pair p) (p_deferreds (heap s ! p))\<rparr>)
           else upd p (\<lambda>ob. ob\<lparr>p_state := 2, p_value := v\<rparr>) s)"
  by (simp add: reject_def finale_settled upd_def)

text \<open>
  C2. Resolving a promise with itself returns, without raising, and leaves the
  promise rejected with the self-resolution type error.
\<close>

theorem resolve_self_rejects:
  "p < length (heap s) \<Longrightarrow>
   \<exists>s'. resolve E (Suc n) p (VPromise p) s = Some (Inr VUndefined, s') \<and>
        p_state (heap s' ! p) = 2 \<and> p_value (heap s' ! p) = self_resolution_error"
  by (simp add: resolve_Suc resolve_body_def reject_result upd_def)

lemma lle_refl [simp]: "lle xs xs"
  by (simp add: lle_def)

lemma lle_trans: "lle xs ys \<Longrightarrow> lle ys zs \<Longrightarrow> lle xs zs"
  by (auto simp: lle_def)

lemma lle_append [simp]: "lle xs (xs @ ys)"
  by (simp add: lle_def nth_append)

lemma lle_update [simp]: "lle xs (xs[l := True])"
  by (cases "l < length xs") (auto simp: lle_def nth_list_update)

lemma lle_appendD: "lle (xs @ zs) ys \<Longrightarrow> lle xs ys"
  by (auto simp: lle_def nth_append)

lemma lle_updateI: "lle xs ys \<Longrightarrow> lle xs (ys[l := True])"
  by (cases "l < length ys") (auto simp: lle_def nth_list_update)

lemma lle_updateD: "lle (xs[l := True]) ys \<Longrightarrow> lle xs ys"
  by (rule lle_trans [OF lle_update])

lemma lle_nth: "lle xs ys \<Longrightarrow> l < length xs \<Longrightarrow> xs ! l \<Longrightarrow> ys ! l"
  by (simp add: lle_def)

lemma seqE:
  assumes "seq m k = Some (r, s')"
  obtains e where "m = Some (Inl e, s')" "r = Inl e"
  | v s1 where "m = Some (Inr v, s1)" "k v s1 = Some (r, s')"
  using assms by (auto simp: seq_def split: option.splits sum.splits prod.splits)

lemma okE:
  assumes "ok m = Some (r, s')"
  obtains "m = Some s'" "r = Inr VUndefined"
  using assms by (auto simp: ok_def split: option.splits)

lemma latches_upd [simp]: "latches (upd p f s) = latches s"
  by (simp add: upd_def)

lemma handle_latches: "handle p d s = Some s' \<Longrightarrow> latches s' = latches s"
  by (auto simp: handle_def handleResolved_def split: option.splits if_splits)

lemma handle_each_latches: "handle_each p ds s = Some s' \<Longrightarrow> latches s' = latches s"
  by (induction ds arbitrary: s) (auto split: option.splits dest: handle_latches)

lemma finale_latches: "finale p s = Some s' \<Longrightarrow> latches s' = latches s"
  by (auto simp: finale_def split: option.splits if_splits dest!: handle_each_latches)

lemma reject_latches: "reject p v s = Some s' \<Longrightarrow> latches s' = latches s"
  by (auto simp: reject_def dest: finale_latches)

lemma then_method_latches: "then_method p a b s = Some (r, s') \<Longrightarrow> latches s' = latches s"
  by (auto simp: then_method_def alloc_def split: option.splits dest: handle_latches)

lemma then_val_latches: "then_val p a b s = Some (r, s') \<Longrightarrow> latches s' = latches s"
  by (auto simp: then_val_def split: val.splits option.splits dest: then_method_latches)

lemma valuePromise_latches: "valuePromise v s = (p, s') \<Longrightarrow> latches s' = latches s"
  by (auto simp: valuePromise_def alloc_def)

lemma rec_leD: "rec_le rec \<Longrightarrow> rec c s = Some (r, s') \<Longrightarrow> lle (latches s) (latches s')"
  by (auto simp: rec_le_def)

lemma apply_val_le:
  assumes R: "rec_le rec"
  shows "apply_val rec f v s = Some (r, s') \<Longrightarrow> lle (latches s) (latches s')"
  by (auto simp: apply_val_def split: val.splits dest: rec_leD [OF R])

lemma run_calls_le:
  assumes R: "rec_le rec"
  shows "run_calls rec cs t a b s = Some (r, s') \<Longrightarrow> lle (latches s) (latches s')"
proof (induction cs arbitrary: s)
  case Nil
  then show ?case by (auto split: option.splits)
next
  case (Cons c cs)
  show ?case
  proof (cases c)
    case (Succeed v)
    with Cons.prems show ?thesis
      by (auto elim!: seqE dest!: apply_val_le [OF R] Cons.IH intro: lle_trans)
  next
    case (Fail v)
    with Cons.prems show ?thesis
      by (auto elim!: seqE dest!: apply_val_le [OF R] Cons.IH intro: lle_trans)
  qed
qed

lemma all_loop_le:
  assumes R: "rec_le rec"
  shows "all_loop rec c is s = Some (r, s') \<Longrightarrow> lle (latches s) (latches s')"
proof (induction "is" arbitrary: s)
  case Nil
  then show ?case by simp
next
  case (Cons i "is")
  from Cons.prems show ?case
    by (auto elim!: seqE dest!: rec_leD [OF R] Cons.IH intro: lle_trans)
qed

lemma race_each_le:
  assumes R: "rec_le rec"
  shows "race_each rec vs a b s = Some (r, s') \<Longrightarrow> lle (latches s) (latches s')"
proof (induction vs arbitrary: s)
  case Nil
  then show ?case by simp
next
  case (Cons v vs)
  from Cons.prems show ?case
    by (auto elim!: seqE dest!: rec_leD [OF R] Cons.IH then_val_latches intro: lle_trans)
qed

lemma res_store_le:
  assumes R: "rec_le rec"
  shows "res_store rec c i v s = Some (r, s') \<Longrightarrow> lle (latches s) (latches s')"
  by (auto simp: res_store_def Let_def split: if_splits dest!: apply_val_le [OF R])

lemma resolve_body_le:
  assumes R: "rec_le rec"
  shows "resolve_body rec p v s = Some (r, s') \<Longrightarrow> lle (latches s) (latches s')"
  by (auto simp: resolve_body_def split: if_splits sum.splits val.splits
      elim!: okE dest!: reject_latches finale_latches rec_leD [OF R])

lemma doResolve_body_le:
  assumes R: "rec_le rec"
  shows "doResolve_body rec f p s = Some (r, s') \<Longrightarrow> lle (latches s) (latches s')"
  by (auto simp: doResolve_body_def Let_def
      split: option.splits sum.splits prod.splits if_splits
      elim!: okE dest!: reject_latches rec_leD [OF R] lle_appendD intro: lle_updateI)

lemma new_Promise_body_le:
  assumes R: "rec_le rec"
  shows "new_Promise_body rec f s = Some (r, s') \<Longrightarrow> lle (latches s) (latches s')"
  by (auto simp: new_Promise_body_def alloc_def split: val.splits if_splits
      elim!: seqE dest!: rec_leD [OF R])

lemma Promise_resolve_body_le:
  assumes R: "rec_le rec"
  shows "Promise_resolve_body rec v s = Some (r, s') \<Longrightarrow> lle (latches s) (latches s')"
  by (auto simp: Promise_resolve_body_def split: val.splits if_splits sum.splits prod.splits
      dest!: rec_leD [OF R] valuePromise_latches)

lemma res_body_le:
  assumes R: "rec_le rec"
  shows "res_body rec c i v s = Some (r, s') \<Longrightarrow> lle (latches s) (latches s')"
  by (auto simp: res_body_def split: val.splits if_splits sum.splits option.splits
      elim!: seqE dest!: rec_leD [OF R] then_val_latches apply_val_le [OF R] res_store_le [OF R] intro: lle_trans)

lemma call_body_le:
  assumes R: "rec_le rec"
  shows "call_body E rec f a b s = Some (r, s') \<Longrightarrow> lle (latches s) (latches s')"
  by (cases f)
     (auto simp: call_body_def Let_def split: if_splits val.splits
      elim!: seqE okE
      dest!: rec_leD [OF R] reject_latches apply_val_le [OF R] run_calls_le [OF R] all_loop_le [OF R]
        race_each_le [OF R] lle_updateD then_val_latches)

lemma exec_le: "exec E n c s = Some (r, s') \<Longrightarrow> lle (latches s) (latches s')"
proof (induction n arbitrary: c s r s')
  case 0
  then show ?case by simp
next
  case (Suc n)
  have R: "rec_le (exec E n)"
    unfolding rec_le_def using Suc.IH by blast
  from Suc.prems show ?case
    by (cases c)
       (auto simp: cmd_body_def
        dest: call_body_le [OF R] resolve_body_le [OF R] doResolve_body_le [OF R]
          new_Promise_body_le [OF R] Promise_resolve_body_le [OF R] res_body_le [OF R])
qed

lemma rec_le_exec: "rec_le (exec E n)"
  unfolding rec_le_def using exec_le by blast

lemma run_task_le: "run_task E n t s = Some (r, s') \<Longrightarrow> lle (latches s) (latches s')"
  by (auto simp: run_task_def callf_def resolve_def split: prod.splits option.splits sum.splits if_splits
      elim!: okE dest!: exec_le reject_latches intro: lle_trans)

lemma step_le: "step E n s = Some (r, s') \<Longrightarrow> lle (latches s) (latches s')"
  by (auto simp: step_def split: list.splits dest!: run_task_le)

lemma run_event_le: "run_event E n ev s = Some (r, s') \<Longrightarrow> lle (latches s) (latches s')"
  by (auto simp: run_event_def split: event.splits dest!: exec_le step_le then_val_latches)

lemma run_events_le: "run_events E n evs s = Some s' \<Longrightarrow> lle (latches s) (latches s')"
proof (induction evs arbitrary: s)
  case Nil
  then show ?case by simp
next
  case (Cons ev evs)
  then show ?case
    by (auto split: option.splits dest!: run_event_le intro: lle_trans)
qed

lemma callback_sets_latch:
  assumes "f = ResolveFn l p \<or> f = RejectFn l p" "l < length (latches s)"
    and "exec E n (Call f v b) s = Some (r, s')"
  shows "latches s' ! l"
proof (cases n)
  case 0
  with assms show ?thesis by simp
next
  case (Suc m)
  show ?thesis
  proof (cases "latches s ! l")
    case True
    with assms Suc show ?thesis
      by (auto simp: cmd_body_def call_body_def)
  next
    case False
    let ?s0 = "s\<lparr>latches := (latches s)[l := True]\<rparr>"
    from assms Suc False have "lle (latches ?s0) (latches s')"
      by (auto simp: cmd_body_def call_body_def elim!: okE dest!: exec_le reject_latches)
    moreover from assms(2) have "l < length (latches ?s0)" "latches ?s0 ! l" by simp_all
    ultimately show ?thesis by (rule lle_nth)
  qed
qed

lemma callback_done:
  "latches s ! l \<Longrightarrow> f = ResolveFn l p \<or> f = RejectFn l p \<Longrightarrow>
   callf E (Suc n) f v b s = Some (Inr VUndefined, s)"
  by (auto simp: callf_def cmd_body_def call_body_def)

theorem resolve_self_rejects_witness:
  "(6::nat) < length (heap (snd (alloc init_state))) \<and>
   (\<exists>s'. resolve (\<lambda>h v. Inr v) (Suc 0) 6 (VPromise 6) (snd (alloc init_state)) = Some (Inr VUndefined, s') \<and>
        p_state (heap s' ! 6) = 2 \<and> p_value (heap s' ! 6) = self_resolution_error)"
proof -
  have h: "(6::nat) < length (heap (snd (alloc init_state)))"
    by (simp add: alloc_def init_state_def)
  from h resolve_self_rejects [OF h, of "\<lambda>h v. Inr v" 0] show ?thesis by simp
qed

lemma run_calls_raise:
  "run_calls rec cs (Some e) a b s =
     (case run_calls rec cs None a b s of
        None \<Rightarrow> None
      | Some (Inl x, s') \<Rightarrow> Some (Inl x, s')
      | Some (Inr y, s') \<Rightarrow> Some (Inl e, s'))"
proof (induction cs arbitrary: s)
  case Nil
  show ?case by simp
next
  case (Cons c cs)
  show ?case
    by (cases c) (auto simp: seq_def Cons.IH split: option.splits sum.splits prod.splits)
qed

lemma apply_callback_sets_latch:
  assumes "f = ResolveFn l p \<or> f = RejectFn l p" "l < length (latches s)"
    and "apply_val (exec E n) (VFun f) v s = Some (r, s')"
  shows "latches s' ! l"
proof -
  from assms(3) have "exec E n (Call f v VUndefined) s = Some (r, s')"
    by (simp add: apply_val_def)
  with assms(1,2) show ?thesis by (rule callback_sets_latch)
qed

lemma run_calls_sets_latch:
  assumes "l < length (latches s)"
    and "run_calls (exec E n) (c # cs) None (VFun (ResolveFn l p)) (VFun (RejectFn l p)) s
           = Some (Inr y, s')"
  shows "latches s' ! l"
proof -
  obtain f v where c: "c = Succeed v \<and> f = ResolveFn l p \<or> c = Fail v \<and> f = RejectFn l p"
    by (cases c) auto
  with assms(2) obtain r s1 where
    1: "apply_val (exec E n) (VFun f) v s = Some (Inr r, s1)" and
    2: "run_calls (exec E n) cs None (VFun (ResolveFn l p)) (VFun (RejectFn l p)) s1 = Some (Inr y, s')"
    by (auto elim!: seqE)
  from c have f: "f = ResolveFn l p \<or> f = RejectFn l p" by auto
  from f assms(1) 1 have "latches s1 ! l" by (rule apply_callback_sets_latch)
  moreover from 1 have "lle (latches s) (latches s1)"
    by (rule apply_val_le [OF rec_le_exec])
  then have "l < length (latches s1)" using assms(1) by (simp add: lle_def)
  moreover from 2 have "lle (latches s1) (latches s')"
    by (rule run_calls_le [OF rec_le_exec])
  ultimately show ?thesis by (simp add: lle_nth)
qed

lemma doResolve_no_raise: "exec E n (DoResolve f p) s \<noteq> Some (Inl x, s')"
  by (cases n)
     (auto simp: cmd_body_def doResolve_body_def Let_def ok_def
      split: option.splits sum.splits prod.splits)

lemma resolve_no_raise: "exec E n (Resolve p v) s \<noteq> Some (Inl x, s')"
  by (cases n)
     (auto simp: cmd_body_def resolve_body_def ok_def doResolve_no_raise
      split: option.splits sum.splits val.splits)

lemma new_Promise_no_raise: "exec E n (NewPromise (VFun f)) s \<noteq> Some (Inl x, s')"
  by (cases n)
     (auto simp: cmd_body_def new_Promise_body_def alloc_def seq_def doResolve_no_raise
      split: option.splits sum.splits prod.splits)

lemma doResolve_late_exception:
  "exec E n (DoResolve (Script (c # cs) (Some e)) p) s =
   exec E n (DoResolve (Script (c # cs) None) p) s"
proof (cases n)
  case 0
  then show ?thesis by simp
next
  case n: (Suc n1)
  show ?thesis
  proof (cases n1)
    case 0
    with n show ?thesis by (simp add: cmd_body_def doResolve_body_def)
  next
    case (Suc n2)
    let ?l = "length (latches s)"
    let ?s0 = "s\<lparr>latches := latches s @ [False]\<rparr>"
    let ?run = "run_calls (exec E n2) (c # cs) None (VFun (ResolveFn ?l p)) (VFun (RejectFn ?l p)) ?s0"
    have l: "?l < length (latches ?s0)" by simp
    have set: "latches s' ! ?l" if "?run = Some (Inr y, s')" for y s'
      using l that by (rule run_calls_sets_latch)
    show ?thesis
      unfolding n Suc
      by (auto simp: cmd_body_def doResolve_body_def call_body_def Let_def run_calls_raise [of _ "c # cs"]
          split: option.splits sum.splits prod.splits dest: set simp del: run_calls.simps)
  qed
qed

text \<open>
  C10. A start routine that calls one of its two callbacks and then raises gives the
  same promise, in the same state, as the routine that makes the same calls and
  returns; and the constructor call does not raise.
\<close>

theorem late_exception_discarded:
  "new_Promise E n (VFun (Script (c # cs) (Some e))) s =
     new_Promise E n (VFun (Script (c # cs) None)) s \<and>
   (\<forall>x s'. new_Promise E n (VFun (Script (c # cs) (Some e))) s \<noteq> Some (Inl x, s'))"
proof (cases n)
  case 0
  then show ?thesis by (simp add: new_Promise_def)
next
  case (Suc m)
  then show ?thesis
    by (simp add: new_Promise_def cmd_body_def new_Promise_body_def alloc_def
        doResolve_late_exception seq_def doResolve_no_raise split: option.splits sum.splits prod.splits)
qed

lemma Promise_resolve_returns_promise:
  "Promise_resolve E n v s = Some (r, s') \<Longrightarrow> \<exists>q. r = Inr (VPromise q)"
proof (cases n)
  case 0
  assume "Promise_resolve E n v s = Some (r, s')"
  with 0 show ?thesis by (simp add: Promise_resolve_def)
next
  case (Suc m)
  have np: "\<exists>q. r = Inr (VPromise q)" if "exec E m (NewPromise (VFun f)) s = Some (r, s')" for f
    using that
    by (cases m)
       (auto simp: cmd_body_def new_Promise_body_def alloc_def doResolve_no_raise
        split: if_splits elim!: seqE)
  assume "Promise_resolve E n v s = Some (r, s')"
  with Suc show ?thesis
    by (auto simp: Promise_resolve_def cmd_body_def Promise_resolve_body_def
        split: val.splits if_splits sum.splits prod.splits dest: np)
qed

text \<open>
  C7. \<open>Promise.resolve\<close> of a promise of this implementation returns that promise
  and changes nothing, whatever the state of the promise; and whatever
  \<open>Promise.resolve\<close> returns is such a promise, so that applying it again returns
  the same promise and changes nothing.
\<close>

theorem Promise_resolve_idempotent:
  "Promise_resolve E (Suc n) (VPromise q) s = Some (Inr (VPromise q), s) \<and>
   (\<forall>v r s'. Promise_resolve E (Suc n) v s = Some (r, s') \<longrightarrow>
      (\<exists>q'. r = Inr (VPromise q') \<and>
            Promise_resolve E (Suc n) (VPromise q') s' = Some (Inr (VPromise q'), s')))"
proof -
  have own: "Promise_resolve E (Suc n) (VPromise q) s = Some (Inr (VPromise q), s)" for q s
    by (simp add: Promise_resolve_def cmd_body_def Promise_resolve_body_def)
  show ?thesis
    by (auto simp: own dest!: Promise_resolve_returns_promise)
qed

theorem Promise_resolve_idempotent_witness:
  "Promise_resolve (\<lambda>h v. Inr v) (Suc 1) (VPromise 3) init_state = Some (Inr (VPromise 3), init_state) \<and>
   (\<exists>q' s'. Promise_resolve (\<lambda>h v. Inr v) (Suc 1) (VStr ''a'') init_state = Some (Inr (VPromise q'), s') \<and>
      Promise_resolve (\<lambda>h v. Inr v) (Suc 1) (VPromise q') s' = Some (Inr (VPromise q'), s'))"
proof -
  let ?E = "(\<lambda>h v. Inr v) :: env"
  have "Promise_resolve ?E (Suc 1) (VStr ''a'') init_state \<noteq> None"
    by code_simp
  then obtain r s' where c: "Promise_resolve ?E (Suc 1) (VStr ''a'') init_state = Some (r, s')"
    by auto
  with Promise_resolve_idempotent [of ?E 1 3 init_state] show ?thesis by blast
qed

lemma Handler_not_callable:
  "\<not> is_callable x \<Longrightarrow> Handler x onR d = Handler VUndefined onR d"
  "\<not> is_callable x \<Longrightarrow> Handler onF x d = Handler onF VUndefined d"
  by (cases x; simp add: Handler_def)+

text \<open>
  C9. An argument of \<open>then\<close> that is not a function is treated as the omitted
  argument \<open>undefined\<close> is: the Handler made and the call of \<open>then\<close> are the same,
  and the scheduled closure does not call the argument: for a fulfilled promise and
  such an \<open>onFulfilled\<close> it resolves the returned promise with the value, and for a
  rejected promise and such an \<open>onRejected\<close> it rejects the returned promise with
  the reason.
\<close>

theorem non_callable_handler_ignored:
  assumes "\<not> is_callable x"
  shows "Handler x onR d = Handler VUndefined onR d \<and>
         Handler onF x d = Handler onF VUndefined d \<and>
         then_method p x onR s = then_method p VUndefined onR s \<and>
         then_method p onF x s = then_method p onF VUndefined s \<and>
         (p_state (heap s ! self) = 1 \<longrightarrow>
            run_task E n (self, Handler x onR d) s = resolve E n d (p_value (heap s ! self)) s) \<and>
         (p_state (heap s ! self') = 2 \<longrightarrow>
            run_task E n (self', Handler onF x d) s = ok (reject d (p_value (heap s ! self')) s))"
  using assms
  by (cases x) (simp_all add: then_method_def Handler_def run_task_def)

theorem non_callable_handler_ignored_witness:
  "\<not> is_callable (VStr ''x'') \<and>
   p_state (heap (snd (valuePromise VUndefined (upd 0 (\<lambda>ob. ob\<lparr>p_state := 2\<rparr>) init_state))) ! 1) = 1 \<and>
   p_state (heap (snd (valuePromise VUndefined (upd 0 (\<lambda>ob. ob\<lparr>p_state := 2\<rparr>) init_state))) ! 0) = 2 \<and>
   (let s = snd (valuePromise VUndefined (upd 0 (\<lambda>ob. ob\<lparr>p_state := 2\<rparr>) init_state));
        E = (\<lambda>h v. Inr v) in
    Handler (VStr ''x'') VNull 6 = Handler VUndefined VNull 6 \<and>
    Handler VNull (VStr ''x'') 6 = Handler VNull VUndefined 6 \<and>
    then_method 0 (VStr ''x'') VNull s = then_method 0 VUndefined VNull s \<and>
    then_method 0 VNull (VStr ''x'') s = then_method 0 VNull VUndefined s \<and>
    run_task E 2 (1, Handler (VStr ''x'') VNull 6) s = resolve E 2 6 (p_value (heap s ! 1)) s \<and>
    run_task E 2 (0, Handler VNull (VStr ''x'') 6) s = ok (reject 6 (p_value (heap s ! 0)) s))"
proof -
  let ?s = "snd (valuePromise VUndefined (upd 0 (\<lambda>ob. ob\<lparr>p_state := 2\<rparr>) init_state))"
  have h: "\<not> is_callable (VStr ''x'')" by simp
  have a: "p_state (heap ?s ! 1) = 1" "p_state (heap ?s ! 0) = 2"
    by (simp_all add: valuePromise_def alloc_def upd_def init_state_def fresh_promise_def nth_append)
  from h a non_callable_handler_ignored [OF h, of VNull 6 VNull 0 ?s 1 "\<lambda>h v. Inr v" 2 0]
  show ?thesis unfolding Let_def by blast
qed

lemma reject_sets:
  "p < length (heap s) \<Longrightarrow>
   \<exists>s'. reject p v s = Some s' \<and> p_state (heap s' ! p) = 2 \<and> p_value (heap s' ! p) = v"
  by (simp add: reject_result upd_def)

text \<open>
  C5. \<open>Promise.allSettled\<close> of a sequence whose first element raises when its
  \<open>then\<close> property is read raises that exception to its caller, in the state it was
  called in: no promise is returned.
\<close>

theorem allSettled_raises:
  "Promise_allSettled E n (VThrowing e # xs) s = Some (Inl e, s)"
  by (simp add: Promise_allSettled_def mapAllSettled_def)

lemma finale_no_waiters: "p_deferredState (heap s ! p) = 0 \<Longrightarrow> finale p s = Some s"
  by (simp add: finale_def)

lemma fulfil_no_waiters:
  assumes "p < length (heap s)" "p_deferredState (heap s ! p) = 0"
  shows "finale p (upd p (\<lambda>ob. ob\<lparr>p_state := k, p_value := v\<rparr>) s)
           = Some (upd p (\<lambda>ob. ob\<lparr>p_state := k, p_value := v\<rparr>) s)"
  using assms by (simp add: finale_def upd_def)

lemma resolve_undefined:
  assumes "p < length (heap s)" "p_deferredState (heap s ! p) = 0"
  shows "resolve E (Suc n) p VUndefined s
           = Some (Inr VUndefined, upd p (\<lambda>ob. ob\<lparr>p_state := 1, p_value := VUndefined\<rparr>) s)"
  using assms by (simp add: resolve_def cmd_body_def resolve_body_def fulfil_no_waiters)

lemma call_RejectFn:
  assumes "l < length (latches s)" "\<not> latches s ! l" "p < length (heap s)"
  shows "\<exists>s'. exec E (Suc n) (Call (RejectFn l p) v b) s = Some (Inr VUndefined, s') \<and>
              p_state (heap s' ! p) = 2 \<and> p_value (heap s' ! p) = v \<and>
              length (heap s') = length (heap s) \<and>
              (\<forall>q. q \<noteq> p \<longrightarrow> heap s' ! q = heap s ! q) \<and>
              any_ctxs s' = any_ctxs s \<and> all_ctxs s' = all_ctxs s \<and>
              latches s' = (latches s)[l := True] \<and>
              (\<exists>ts. queue s' = queue s @ ts)"
  using assms
  by (simp add: cmd_body_def call_body_def reject_result upd_def)

lemma upt_Suc_shift: "[h..<h + Suc k] = h # [Suc h..<Suc h + k]"
  by (simp add: upt_conv_Cons)

lemma then_method_settled:
  assumes "q < length (heap s)" "p_state (heap s ! q) \<noteq> 0" "p_state (heap s ! q) \<noteq> 3"
  shows "then_method q a b s =
           Some (length (heap s),
                 s\<lparr>heap := heap s @ [fresh_promise],
                   queue := queue s @ [(q, Handler a b (length (heap s)))]\<rparr>)"
  using assms by (simp add: then_method_def alloc_def handle_settled nth_append)

lemma race_each_settled:
  assumes "\<forall>q\<in>set qs. q < length (heap s) \<and> p_state (heap s ! q) \<noteq> 0 \<and> p_state (heap s ! q) \<noteq> 3"
  shows "race_each (exec E (Suc n)) (map VPromise qs) a b s =
           Some (Inr VUndefined,
                 s\<lparr>heap := heap s @ replicate (length qs) fresh_promise,
                   queue := queue s @
                     map (\<lambda>t. (fst t, Handler a b (snd t)))
                       (zip qs [length (heap s)..<length (heap s) + length qs])\<rparr>)"
  using assms
proof (induction qs arbitrary: s)
  case Nil
  show ?case by simp
next
  case (Cons q qs)
  let ?s2 = "s\<lparr>heap := heap s @ [fresh_promise],
               queue := queue s @ [(q, Handler a b (length (heap s)))]\<rparr>"
  have 1: "exec E (Suc n) (PromiseResolve (VPromise q)) s = Some (Inr (VPromise q), s)"
    by (simp add: cmd_body_def Promise_resolve_body_def)
  have 2: "then_val (VPromise q) a b s = Some (Inr (VPromise (length (heap s))), ?s2)"
    using Cons.prems by (simp add: then_val_def then_method_settled)
  have "\<forall>q\<in>set qs. q < length (heap ?s2) \<and> p_state (heap ?s2 ! q) \<noteq> 0 \<and> p_state (heap ?s2 ! q) \<noteq> 3"
    using Cons.prems by (auto simp: nth_append)
  from Cons.IH [OF this] 1 2 show ?case
    by (simp add: upt_conv_Cons replicate_app_Cons_same del: upt_Suc exec.simps)
qed

lemma map_fst_zip_upt: "map (\<lambda>t. f (fst t)) (zip qs [a..<a + length qs]) = map f qs"
proof -
  have 1: "map fst (zip qs [a..<a + length qs]) = qs"
    by (rule map_fst_zip) simp
  have 2: "map (\<lambda>t. f (fst t)) zs = map f (map fst zs)" for zs :: "(_ \<times> nat) list"
    by (induction zs) simp_all
  show ?thesis
    unfolding 2 1 ..
qed

lemma zip_upt_members:
  assumes "t \<in> set (zip qs [a..<a + length qs])"
  shows "fst t \<in> set qs" "a \<le> snd t" "snd t < a + length qs"
proof -
  obtain q r where t: "t = (q, r)" by (cases t)
  with assms have "q \<in> set qs" "r \<in> set [a..<a + length qs]"
    by (auto dest: set_zip_leftD set_zip_rightD)
  with t show "fst t \<in> set qs" "a \<le> snd t" "snd t < a + length qs"
    by simp_all
qed

text \<open>
  C4. \<open>Promise.any\<close> does not keep the order of its inputs in the aggregate error.
  Two pending promises 6 and 7 are passed to \<open>Promise.any\<close>, in this order; 7 is
  rejected with \<open>b\<close>, then 6 with \<open>a\<close>, and the scheduler runs. The promise of
  \<open>Promise.any\<close> is rejected with the reasons \<open>b\<close>, \<open>a\<close>: \<open>rejectionCheck\<close> pushes each
  reason when its closure runs and has no index. \<open>Promise.all\<close>, which stores each
  value at the index of its input, gives \<open>a\<close>, \<open>b\<close> when the same two promises are
  fulfilled in the same order.
\<close>

theorem any_reasons_in_completion_order:
  "settled 6 (run_events identity_env 5 any_late_input_first init_state) = Some (2, VStr ''a'') \<and>
   settled 7 (run_events identity_env 5 any_late_input_first init_state) = Some (2, VStr ''b'') \<and>
   settled 8 (run_events identity_env 5 any_late_input_first init_state)
     = Some (2, VAggregateError [VStr ''b'', VStr ''a'']) \<and>
   settled 8 (run_events identity_env 5 all_late_input_first init_state)
     = Some (1, VArr [VStr ''a'', VStr ''b''])"
  by code_simp

lemma res_body_plain: "plain v \<Longrightarrow> res_body rec c i v s = res_store rec c i v s"
  by (cases v) (auto simp: res_body_def plain_def split: sum.splits val.splits option.splits)

lemma call_ResolveFn_array:
  assumes "l < length (latches s)" "\<not> latches s ! l" "p < length (heap s)"
  shows "\<exists>s'. exec E (Suc (Suc n)) (Call (ResolveFn l p) (VArr xs) b) s = Some (Inr VUndefined, s') \<and>
              p_state (heap s' ! p) = 1 \<and> p_value (heap s' ! p) = VArr xs \<and>
              length (heap s') = length (heap s) \<and>
              (\<forall>q. q \<noteq> p \<longrightarrow> heap s' ! q = heap s ! q) \<and>
              any_ctxs s' = any_ctxs s \<and> all_ctxs s' = all_ctxs s \<and>
              latches s' = (latches s)[l := True] \<and>
              (\<exists>ts. queue s' = queue s @ ts)"
  using assms
  by (simp add: cmd_body_def call_body_def resolve_body_def getThen_def finale_settled upd_def)

lemma call_latch_done:
  "latches s ! l \<Longrightarrow> exec E (Suc n) (Call (ResolveFn l p) v b) s = Some (Inr VUndefined, s)"
  "latches s ! l \<Longrightarrow> exec E (Suc n) (Call (RejectFn l p) v b) s = Some (Inr VUndefined, s)"
  by (simp_all add: cmd_body_def call_body_def)

lemma all_task_run:
  assumes "exec E (Suc n) (Call (if p_state (heap s ! q) = 1 then AllRes c i else RejectFn L P)
             (p_value (heap s ! q)) VUndefined) s = Some (Inr VUndefined, s1)"
    and "r < length (heap s1)" "p_deferredState (heap s1 ! r) = 0"
  shows "run_task E (Suc n) (all_task c L P (q, i, r)) s
           = Some (Inr VUndefined, upd r (\<lambda>ob. ob\<lparr>p_state := 1, p_value := VUndefined\<rparr>) s1)"
  using assms
  by (cases "p_state (heap s ! q) = 1")
     (simp_all add: run_task_def all_task_def Handler_def callf_def resolve_undefined del: exec.simps)

lemma AllRes_fulfilled:
  assumes "c < length (all_ctxs s)"
    and "all_resolve (all_ctxs s ! c) = VFun (ResolveFn L P)"
    and "L < length (latches s)" "P < length (heap s)"
    and "plain w"
  shows "\<exists>s'. exec E (Suc (Suc (Suc (Suc n)))) (Call (AllRes c i) w VUndefined) s = Some (Inr VUndefined, s') \<and>
           length (heap s') = length (heap s) \<and>
           (\<forall>x. x \<noteq> P \<longrightarrow> heap s' ! x = heap s ! x) \<and>
           length (latches s') = length (latches s) \<and>
           (\<exists>ex. queue s' = queue s @ ex) \<and>
           all_ctxs s' = (all_ctxs s)[c := (all_ctxs s ! c)
               \<lparr>all_args := (all_args (all_ctxs s ! c))[i := w],
                 all_remaining := all_remaining (all_ctxs s ! c) - 1\<rparr>] \<and>
           (if latches s ! L then latches s' ! L \<and> heap s' ! P = heap s ! P
            else if all_remaining (all_ctxs s ! c) = 1
              then latches s' ! L \<and> p_state (heap s' ! P) = 1 \<and>
                   p_value (heap s' ! P) = VArr ((all_args (all_ctxs s ! c))[i := w])
              else \<not> latches s' ! L \<and> heap s' ! P = heap s ! P)"
proof -
  let ?ctx = "all_ctxs s ! c"
  let ?args = "(all_args ?ctx)[i := w]"
  let ?s0 = "s\<lparr>all_ctxs := (all_ctxs s)[c := ?ctx\<lparr>all_args := ?args, all_remaining := all_remaining ?ctx - 1\<rparr>]\<rparr>"
  have unfold: "exec E (Suc (Suc (Suc (Suc n)))) (Call (AllRes c i) w VUndefined) s
      = seq (res_store (exec E (Suc (Suc n))) c i w s) (\<lambda>r s'. Some (Inr VUndefined, s'))"
    using assms(5) by (simp add: cmd_body_def call_body_def res_body_plain)
  show ?thesis
  proof (cases "all_remaining ?ctx = 1")
    case False
    then have "res_store (exec E (Suc (Suc n))) c i w s = Some (Inr VUndefined, ?s0)"
      by (simp add: res_store_def Let_def)
    with False assms(1) show ?thesis
      unfolding unfold by simp
  next
    case True
    then have store: "res_store (exec E (Suc (Suc n))) c i w s
        = exec E (Suc (Suc n)) (Call (ResolveFn L P) (VArr ?args) VUndefined) ?s0"
      using assms(2) by (simp add: res_store_def Let_def apply_val_def del: exec.simps)
    show ?thesis
    proof (cases "latches s ! L")
      case dn: True
      then have "exec E (Suc (Suc n)) (Call (ResolveFn L P) (VArr ?args) VUndefined) ?s0
          = Some (Inr VUndefined, ?s0)"
        by (intro call_latch_done) simp
      with dn True assms(1) show ?thesis
        unfolding unfold store by simp
    next
      case False
      with assms(3,4) have "\<exists>s'. exec E (Suc (Suc n)) (Call (ResolveFn L P) (VArr ?args) VUndefined) ?s0
            = Some (Inr VUndefined, s') \<and>
              p_state (heap s' ! P) = 1 \<and> p_value (heap s' ! P) = VArr ?args \<and>
              length (heap s') = length (heap ?s0) \<and>
              (\<forall>q. q \<noteq> P \<longrightarrow> heap s' ! q = heap ?s0 ! q) \<and>
              any_ctxs s' = any_ctxs ?s0 \<and> all_ctxs s' = all_ctxs ?s0 \<and>
              latches s' = (latches ?s0)[L := True] \<and>
              (\<exists>ts. queue s' = queue ?s0 @ ts)"
        by (intro call_ResolveFn_array) simp_all
      then obtain s1 where
        "exec E (Suc (Suc n)) (Call (ResolveFn L P) (VArr ?args) VUndefined) ?s0 = Some (Inr VUndefined, s1)"
        "p_state (heap s1 ! P) = 1" "p_value (heap s1 ! P) = VArr ?args"
        "length (heap s1) = length (heap s)" "\<forall>q. q \<noteq> P \<longrightarrow> heap s1 ! q = heap s ! q"
        "all_ctxs s1 = all_ctxs ?s0" "latches s1 = (latches s)[L := True]" "\<exists>ts. queue s1 = queue s @ ts"
        by auto
      with False True assms(1,3) show ?thesis
        unfolding unfold store by simp
    qed
  qed
qed

lemma all_delivery:
  assumes c: "c < length (all_ctxs s)"
    and cb: "all_resolve (all_ctxs s ! c) = VFun (ResolveFn L P)"
    and L: "L < length (latches s)" and P: "P < length (heap s)"
    and q: "p_state (heap s ! q) = 1 \<and> plain (p_value (heap s ! q)) \<or> p_state (heap s ! q) = 2"
    and r: "r < length (heap s)" "p_deferredState (heap s ! r) = 0" "r \<noteq> P"
  shows "\<exists>s'. run_task E (Suc (Suc (Suc (Suc n)))) (all_task c L P (q, i, r)) s = Some (Inr VUndefined, s') \<and>
           length (heap s') = length (heap s) \<and>
           (\<forall>x. x \<noteq> r \<and> x \<noteq> P \<longrightarrow> heap s' ! x = heap s ! x) \<and>
           length (latches s') = length (latches s) \<and>
           (\<exists>ex. queue s' = queue s @ ex) \<and>
           all_ctxs s' = (all_ctxs s)[c :=
              (if p_state (heap s ! q) = 1
               then (all_ctxs s ! c)
                 \<lparr>all_args := (all_args (all_ctxs s ! c))[i := p_value (heap s ! q)],
                   all_remaining := all_remaining (all_ctxs s ! c) - 1\<rparr>
               else all_ctxs s ! c)] \<and>
           (if latches s ! L then latches s' ! L \<and> heap s' ! P = heap s ! P
            else if p_state (heap s ! q) = 2
              then latches s' ! L \<and> p_state (heap s' ! P) = 2 \<and> p_value (heap s' ! P) = p_value (heap s ! q)
            else if all_remaining (all_ctxs s ! c) = 1
              then latches s' ! L \<and> p_state (heap s' ! P) = 1 \<and>
                   p_value (heap s' ! P) = VArr ((all_args (all_ctxs s ! c))[i := p_value (heap s ! q)])
              else \<not> latches s' ! L \<and> heap s' ! P = heap s ! P)"
proof -
  let ?n = "Suc (Suc (Suc n))"
  let ?cb = "if p_state (heap s ! q) = 1 then AllRes c i else RejectFn L P"
  let ?ctx' = "if p_state (heap s ! q) = 1
               then (all_ctxs s ! c)
                 \<lparr>all_args := (all_args (all_ctxs s ! c))[i := p_value (heap s ! q)],
                   all_remaining := all_remaining (all_ctxs s ! c) - 1\<rparr>
               else all_ctxs s ! c"
  have "\<exists>s1. exec E (Suc ?n) (Call ?cb (p_value (heap s ! q)) VUndefined) s = Some (Inr VUndefined, s1) \<and>
           length (heap s1) = length (heap s) \<and>
           (\<forall>x. x \<noteq> P \<longrightarrow> heap s1 ! x = heap s ! x) \<and>
           length (latches s1) = length (latches s) \<and>
           (\<exists>ex. queue s1 = queue s @ ex) \<and>
           all_ctxs s1 = (all_ctxs s)[c := ?ctx'] \<and>
           (if latches s ! L then latches s1 ! L \<and> heap s1 ! P = heap s ! P
            else if p_state (heap s ! q) = 2
              then latches s1 ! L \<and> p_state (heap s1 ! P) = 2 \<and> p_value (heap s1 ! P) = p_value (heap s ! q)
            else if all_remaining (all_ctxs s ! c) = 1
              then latches s1 ! L \<and> p_state (heap s1 ! P) = 1 \<and>
                   p_value (heap s1 ! P) = VArr ((all_args (all_ctxs s ! c))[i := p_value (heap s ! q)])
              else \<not> latches s1 ! L \<and> heap s1 ! P = heap s ! P)"
  proof (cases "p_state (heap s ! q) = 1")
    case True
    with q have pl: "plain (p_value (heap s ! q))" by auto
    from True have e: "(p_state (heap s ! q) = 1) = True" "(p_state (heap s ! q) = 2) = False"
      by simp_all
    show ?thesis
      unfolding e if_True if_False by (rule AllRes_fulfilled [OF c cb L P pl])
  next
    case False
    with q have rej: "p_state (heap s ! q) = 2" by auto
    from False rej have e: "(p_state (heap s ! q) = 1) = False" "(p_state (heap s ! q) = 2) = True"
      by simp_all
    have same: "(all_ctxs s)[c := all_ctxs s ! c] = all_ctxs s"
      by simp
    show ?thesis
    proof (cases "latches s ! L")
      case True
      then have "exec E (Suc ?n) (Call (RejectFn L P) (p_value (heap s ! q)) VUndefined) s
          = Some (Inr VUndefined, s)"
        by (rule call_latch_done)
      with True show ?thesis
        unfolding e if_True if_False same by (simp del: exec.simps)
    next
      case nd: False
      from call_RejectFn [OF L nd P, of E ?n "p_value (heap s ! q)" VUndefined] obtain s1 where
        "exec E (Suc ?n) (Call (RejectFn L P) (p_value (heap s ! q)) VUndefined) s = Some (Inr VUndefined, s1)"
        "p_state (heap s1 ! P) = 2" "p_value (heap s1 ! P) = p_value (heap s ! q)"
        "length (heap s1) = length (heap s)" "\<forall>q. q \<noteq> P \<longrightarrow> heap s1 ! q = heap s ! q"
        "all_ctxs s1 = all_ctxs s" "latches s1 = (latches s)[L := True]" "\<exists>ts. queue s1 = queue s @ ts"
        by blast
      with nd L show ?thesis
        unfolding e if_True if_False same by (simp del: exec.simps)
    qed
  qed
  then obtain s1 where
    call: "exec E (Suc ?n) (Call ?cb (p_value (heap s ! q)) VUndefined) s = Some (Inr VUndefined, s1)"
    and len: "length (heap s1) = length (heap s)"
    and frame: "\<forall>x. x \<noteq> P \<longrightarrow> heap s1 ! x = heap s ! x"
    and rest: "length (latches s1) = length (latches s)" "\<exists>ex. queue s1 = queue s @ ex"
      "all_ctxs s1 = (all_ctxs s)[c := ?ctx']"
      "if latches s ! L then latches s1 ! L \<and> heap s1 ! P = heap s ! P
            else if p_state (heap s ! q) = 2
              then latches s1 ! L \<and> p_state (heap s1 ! P) = 2 \<and> p_value (heap s1 ! P) = p_value (heap s ! q)
            else if all_remaining (all_ctxs s ! c) = 1
              then latches s1 ! L \<and> p_state (heap s1 ! P) = 1 \<and>
                   p_value (heap s1 ! P) = VArr ((all_args (all_ctxs s ! c))[i := p_value (heap s ! q)])
              else \<not> latches s1 ! L \<and> heap s1 ! P = heap s ! P"
    by blast
  from r len frame have r1: "r < length (heap s1)" "p_deferredState (heap s1 ! r) = 0"
    by simp_all
  have run: "run_task E (Suc ?n) (all_task c L P (q, i, r)) s
           = Some (Inr VUndefined, upd r (\<lambda>ob. ob\<lparr>p_state := 1, p_value := VUndefined\<rparr>) s1)"
    using call r1 by (rule all_task_run)
  show ?thesis
    unfolding run using len frame rest r(3) r1
    by (simp add: upd_def del: exec.simps split del: if_split cong: if_cong)
qed

lemma all_deliveries_done:
  assumes "c < length (all_ctxs s)"
    and "all_resolve (all_ctxs s ! c) = VFun (ResolveFn L P)"
    and "L < length (latches s)" "latches s ! L" "P < length (heap s)"
    and "queue s = map (all_task c L P) ts @ rest"
    and "\<forall>t\<in>set ts.
           (p_state (heap s ! fst t) = 1 \<and> plain (p_value (heap s ! fst t)) \<or> p_state (heap s ! fst t) = 2) \<and>
           snd (snd t) < length (heap s) \<and> p_deferredState (heap s ! snd (snd t)) = 0 \<and>
           snd (snd t) \<noteq> P \<and> snd (snd t) \<notin> fst ` set ts"
    and "distinct (map (\<lambda>t. snd (snd t)) ts)"
  shows "\<exists>s'. run_queue E (Suc (Suc (Suc (Suc n)))) (length ts) s = Some (Inr VUndefined, s') \<and>
              heap s' ! P = heap s ! P"
  using assms
proof (induction ts arbitrary: s rest)
  case Nil
  show ?case by simp
next
  case (Cons t ts)
  obtain q i r where t: "t = (q, i, r)" by (cases t)
  let ?s0 = "s\<lparr>queue := map (all_task c L P) ts @ rest\<rparr>"
  let ?N = "Suc (Suc (Suc (Suc n)))"
  have stp: "step E ?N s = run_task E ?N (all_task c L P (q, i, r)) ?s0"
    using Cons.prems(6) t by (simp add: step_def del: exec.simps)
  from Cons.prems t have pre:
    "c < length (all_ctxs ?s0)" "all_resolve (all_ctxs ?s0 ! c) = VFun (ResolveFn L P)"
    "L < length (latches ?s0)" "P < length (heap ?s0)"
    "p_state (heap ?s0 ! q) = 1 \<and> plain (p_value (heap ?s0 ! q)) \<or> p_state (heap ?s0 ! q) = 2"
    "r < length (heap ?s0)" "p_deferredState (heap ?s0 ! r) = 0" "r \<noteq> P"
    by simp_all
  from all_delivery [OF pre, of E n i] Cons.prems(4) obtain s1 where
    run: "run_task E ?N (all_task c L P (q, i, r)) ?s0 = Some (Inr VUndefined, s1)"
    and len: "length (heap s1) = length (heap s)"
    and frame: "\<forall>x. x \<noteq> r \<and> x \<noteq> P \<longrightarrow> heap s1 ! x = heap s ! x"
    and lat: "length (latches s1) = length (latches s)" "latches s1 ! L"
    and P1: "heap s1 ! P = heap s ! P"
    and qu: "\<exists>ex. queue s1 = (map (all_task c L P) ts @ rest) @ ex"
    and ctx: "all_ctxs s1 = (all_ctxs s)[c :=
              (if p_state (heap s ! q) = 1
               then (all_ctxs s ! c)
                 \<lparr>all_args := (all_args (all_ctxs s ! c))[i := p_value (heap s ! q)],
                   all_remaining := all_remaining (all_ctxs s ! c) - 1\<rparr>
               else all_ctxs s ! c)]"
    by (auto simp del: exec.simps)
  from qu obtain ex where q1: "queue s1 = map (all_task c L P) ts @ (rest @ ex)" by auto
  have same: "heap s1 ! x = heap s ! x" if "x \<noteq> r" for x
    using that frame P1 by (cases "x = P") auto
  have inp: "fst t' \<noteq> r" if "t' \<in> set ts" for t'
    using Cons.prems(7) that t by force
  have dwn: "snd (snd t') \<noteq> r" if "t' \<in> set ts" for t'
    using Cons.prems(8) that t by force
  have "\<exists>s'. run_queue E ?N (length ts) s1 = Some (Inr VUndefined, s') \<and> heap s' ! P = heap s1 ! P"
  proof (rule Cons.IH [OF _ _ _ _ _ q1])
    show "c < length (all_ctxs s1)" using Cons.prems(1) ctx by simp
    show "all_resolve (all_ctxs s1 ! c) = VFun (ResolveFn L P)"
      using Cons.prems(1,2) ctx by simp
    show "L < length (latches s1)" "latches s1 ! L" using Cons.prems(3) lat by simp_all
    show "P < length (heap s1)" using Cons.prems(5) len by simp
    show "\<forall>t\<in>set ts.
           (p_state (heap s1 ! fst t) = 1 \<and> plain (p_value (heap s1 ! fst t)) \<or> p_state (heap s1 ! fst t) = 2) \<and>
           snd (snd t) < length (heap s1) \<and> p_deferredState (heap s1 ! snd (snd t)) = 0 \<and>
           snd (snd t) \<noteq> P \<and> snd (snd t) \<notin> fst ` set ts"
      using Cons.prems(7) inp dwn same len by auto
    show "distinct (map (\<lambda>t. snd (snd t)) ts)" using Cons.prems(8) by simp
  qed
  with P1 run stp show ?case
    by (simp del: exec.simps)
qed

lemma deliver_args_cong:
  "(\<And>t. t \<in> set ts \<Longrightarrow> h1 ! fst t = h ! fst t) \<Longrightarrow> deliver_args h1 ts a = deliver_args h ts a"
proof (induction ts arbitrary: a)
  case Nil
  show ?case by simp
next
  case (Cons t ts)
  obtain q i r where t: "t = (q, i, r)" by (cases t)
  from Cons.prems [of t] t have "h1 ! q = h ! q" by simp
  moreover have "deliver_args h1 ts b = deliver_args h ts b" for b
    by (rule Cons.IH) (simp add: Cons.prems)
  ultimately show ?case using t by simp
qed

lemma find_rejected_cong:
  "(\<And>t. t \<in> set ts \<Longrightarrow> h1 ! fst t = h ! fst t) \<Longrightarrow>
   find (\<lambda>t. p_state (h1 ! fst t) = 2) ts = find (\<lambda>t. p_state (h ! fst t) = 2) ts"
  by (induction ts) simp_all

lemma all_deliveries:
  assumes "ts \<noteq> []"
    and "c < length (all_ctxs s)"
    and "all_resolve (all_ctxs s ! c) = VFun (ResolveFn L P)"
    and "all_remaining (all_ctxs s ! c) = int (length ts)"
    and "L < length (latches s)" "\<not> latches s ! L" "P < length (heap s)"
    and "queue s = map (all_task c L P) ts @ rest"
    and "\<forall>t\<in>set ts. fst t \<noteq> P \<and>
           (p_state (heap s ! fst t) = 1 \<and> plain (p_value (heap s ! fst t)) \<or> p_state (heap s ! fst t) = 2) \<and>
           snd (snd t) < length (heap s) \<and> p_deferredState (heap s ! snd (snd t)) = 0 \<and>
           snd (snd t) \<noteq> P \<and> snd (snd t) \<notin> fst ` set ts"
    and "distinct (map (\<lambda>t. snd (snd t)) ts)"
  shows "\<exists>s'. run_queue E (Suc (Suc (Suc (Suc n)))) (length ts) s = Some (Inr VUndefined, s') \<and>
           (case find (\<lambda>t. p_state (heap s ! fst t) = 2) ts of
              None \<Rightarrow> p_state (heap s' ! P) = 1 \<and>
                      p_value (heap s' ! P) = VArr (deliver_args (heap s) ts (all_args (all_ctxs s ! c)))
            | Some t \<Rightarrow> p_state (heap s' ! P) = 2 \<and> p_value (heap s' ! P) = p_value (heap s ! fst t))"
  using assms
proof (induction ts arbitrary: s rest)
  case Nil
  then show ?case by simp
next
  case (Cons t ts)
  obtain q i r where t: "t = (q, i, r)" by (cases t)
  let ?s0 = "s\<lparr>queue := map (all_task c L P) ts @ rest\<rparr>"
  let ?N = "Suc (Suc (Suc (Suc n)))"
  have stp: "step E ?N s = run_task E ?N (all_task c L P (q, i, r)) ?s0"
    using Cons.prems(8) t by (simp add: step_def del: exec.simps)
  from Cons.prems t have pre:
    "c < length (all_ctxs ?s0)" "all_resolve (all_ctxs ?s0 ! c) = VFun (ResolveFn L P)"
    "L < length (latches ?s0)" "P < length (heap ?s0)"
    "p_state (heap ?s0 ! q) = 1 \<and> plain (p_value (heap ?s0 ! q)) \<or> p_state (heap ?s0 ! q) = 2"
    "r < length (heap ?s0)" "p_deferredState (heap ?s0 ! r) = 0" "r \<noteq> P"
    by simp_all
  from all_delivery [OF pre, of E n i] Cons.prems(6) obtain s1 where
    run: "run_task E ?N (all_task c L P (q, i, r)) ?s0 = Some (Inr VUndefined, s1)"
    and len: "length (heap s1) = length (heap s)"
    and frame: "\<forall>x. x \<noteq> r \<and> x \<noteq> P \<longrightarrow> heap s1 ! x = heap s ! x"
    and lat: "length (latches s1) = length (latches s)"
    and qu: "\<exists>ex. queue s1 = (map (all_task c L P) ts @ rest) @ ex"
    and ctx: "all_ctxs s1 = (all_ctxs s)[c :=
              (if p_state (heap s ! q) = 1
               then (all_ctxs s ! c)
                 \<lparr>all_args := (all_args (all_ctxs s ! c))[i := p_value (heap s ! q)],
                   all_remaining := all_remaining (all_ctxs s ! c) - 1\<rparr>
               else all_ctxs s ! c)]"
    and out: "if p_state (heap s ! q) = 2
              then latches s1 ! L \<and> p_state (heap s1 ! P) = 2 \<and> p_value (heap s1 ! P) = p_value (heap s ! q)
            else if all_remaining (all_ctxs s ! c) = 1
              then latches s1 ! L \<and> p_state (heap s1 ! P) = 1 \<and>
                   p_value (heap s1 ! P) = VArr ((all_args (all_ctxs s ! c))[i := p_value (heap s ! q)])
              else \<not> latches s1 ! L \<and> heap s1 ! P = heap s ! P"
    by (auto simp del: exec.simps split del: if_split cong: if_cong)
  from qu obtain ex where q1: "queue s1 = map (all_task c L P) ts @ (rest @ ex)" by auto
  have inP: "fst t' \<noteq> P" if "t' \<in> set ts" for t'
    using Cons.prems(9) that by simp
  have inp: "fst t' \<noteq> r" if "t' \<in> set ts" for t'
    using Cons.prems(9) that t by force
  have dwn: "snd (snd t') \<noteq> r \<and> snd (snd t') \<noteq> P" if "t' \<in> set ts" for t'
    using Cons.prems(9,10) that t by force
  have same: "heap s1 ! fst t' = heap s ! fst t'" "heap s1 ! snd (snd t') = heap s ! snd (snd t')"
    if "t' \<in> set ts" for t'
    using that frame inP inp dwn by simp_all
  have cond1: "\<forall>t\<in>set ts.
           (p_state (heap s1 ! fst t) = 1 \<and> plain (p_value (heap s1 ! fst t)) \<or> p_state (heap s1 ! fst t) = 2) \<and>
           snd (snd t) < length (heap s1) \<and> p_deferredState (heap s1 ! snd (snd t)) = 0 \<and>
           snd (snd t) \<noteq> P \<and> snd (snd t) \<notin> fst ` set ts"
    using Cons.prems(9) same len by auto
  have dist1: "distinct (map (\<lambda>t. snd (snd t)) ts)" using Cons.prems(10) by simp
  have c1: "c < length (all_ctxs s1)" using Cons.prems(2) ctx by simp
  have r1: "all_resolve (all_ctxs s1 ! c) = VFun (ResolveFn L P)"
    using Cons.prems(2,3) ctx by simp
  have L1: "L < length (latches s1)" using Cons.prems(5) lat by simp
  have P1: "P < length (heap s1)" using Cons.prems(7) len by simp
  show ?case
  proof (cases "p_state (heap s ! q) = 2")
    case True
    with out have o: "latches s1 ! L" "p_state (heap s1 ! P) = 2" "p_value (heap s1 ! P) = p_value (heap s ! q)"
      by simp_all
    from all_deliveries_done [OF c1 r1 L1 o(1) P1 q1 cond1 dist1, of E n] obtain s' where
      "run_queue E ?N (length ts) s1 = Some (Inr VUndefined, s')" "heap s' ! P = heap s1 ! P"
      by blast
    with o True run stp t show ?thesis
      by (simp del: exec.simps)
  next
    case False
    with pre(5) have ful: "p_state (heap s ! q) = 1" by simp
    show ?thesis
    proof (cases "ts = []")
      case True
      with Cons.prems(4) out False have "p_state (heap s1 ! P) = 1"
        "p_value (heap s1 ! P) = VArr ((all_args (all_ctxs s ! c))[i := p_value (heap s ! q)])"
        by simp_all
      with True False run stp t show ?thesis
        by (simp del: exec.simps)
    next
      case ne: False
      with Cons.prems(4) have "all_remaining (all_ctxs s ! c) \<noteq> 1"
        by (cases ts) simp_all
      with out False have nd: "\<not> latches s1 ! L" by simp
      have rem: "all_remaining (all_ctxs s1 ! c) = int (length ts)"
        using Cons.prems(2,4) ctx ful by simp
      have cond2: "\<forall>t\<in>set ts. fst t \<noteq> P \<and>
           (p_state (heap s1 ! fst t) = 1 \<and> plain (p_value (heap s1 ! fst t)) \<or> p_state (heap s1 ! fst t) = 2) \<and>
           snd (snd t) < length (heap s1) \<and> p_deferredState (heap s1 ! snd (snd t)) = 0 \<and>
           snd (snd t) \<noteq> P \<and> snd (snd t) \<notin> fst ` set ts"
        using cond1 inP by simp
      from Cons.IH [OF ne c1 r1 rem L1 nd P1 q1 cond2 dist1] obtain s' where
        rq: "run_queue E ?N (length ts) s1 = Some (Inr VUndefined, s')"
        and res: "case find (\<lambda>t. p_state (heap s1 ! fst t) = 2) ts of
              None \<Rightarrow> p_state (heap s' ! P) = 1 \<and>
                      p_value (heap s' ! P) = VArr (deliver_args (heap s1) ts (all_args (all_ctxs s1 ! c)))
            | Some t \<Rightarrow> p_state (heap s' ! P) = 2 \<and> p_value (heap s' ! P) = p_value (heap s1 ! fst t)"
        by blast
      have f: "find (\<lambda>t. p_state (heap s1 ! fst t) = 2) ts = find (\<lambda>t. p_state (heap s ! fst t) = 2) ts"
        by (rule find_rejected_cong) (rule same)
      have d: "deliver_args (heap s1) ts a = deliver_args (heap s) ts a" for a
        by (rule deliver_args_cong) (rule same)
      have a1: "all_args (all_ctxs s1 ! c) = (all_args (all_ctxs s ! c))[i := p_value (heap s ! q)]"
        using Cons.prems(2) ctx ful by simp
      have v: "p_value (heap s1 ! fst t') = p_value (heap s ! fst t')"
        if "find (\<lambda>t. p_state (heap s ! fst t) = 2) ts = Some t'" for t'
      proof -
        from that have "t' \<in> set ts" by (auto simp: find_Some_iff)
        then show ?thesis by (simp add: same)
      qed
      from res have "case find (\<lambda>t. p_state (heap s ! fst t) = 2) ts of
              None \<Rightarrow> p_state (heap s' ! P) = 1 \<and>
                      p_value (heap s' ! P) = VArr (deliver_args (heap s) (t # ts) (all_args (all_ctxs s ! c)))
            | Some t \<Rightarrow> p_state (heap s' ! P) = 2 \<and> p_value (heap s' ! P) = p_value (heap s ! fst t)"
        unfolding f d a1 using v t by (auto split: option.splits)
      with rq run stp False t show ?thesis
        by (simp del: exec.simps)
    qed
  qed
qed

lemma res_store_result:
  assumes "c < length (all_ctxs s)"
    and "all_resolve (all_ctxs s ! c) = VFun (ResolveFn L P)"
    and "L < length (latches s)" "P < length (heap s)"
  shows "\<exists>s'. res_store (exec E (Suc (Suc n))) c i w s = Some (Inr VUndefined, s') \<and>
           length (heap s') = length (heap s) \<and>
           (\<forall>x. x \<noteq> P \<longrightarrow> heap s' ! x = heap s ! x) \<and>
           length (latches s') = length (latches s) \<and>
           (\<exists>ex. queue s' = queue s @ ex) \<and>
           all_ctxs s' = (all_ctxs s)[c := (all_ctxs s ! c)
               \<lparr>all_args := (all_args (all_ctxs s ! c))[i := w],
                 all_remaining := all_remaining (all_ctxs s ! c) - 1\<rparr>] \<and>
           (if latches s ! L then latches s' ! L \<and> heap s' ! P = heap s ! P
            else if all_remaining (all_ctxs s ! c) = 1
              then latches s' ! L \<and> p_state (heap s' ! P) = 1 \<and>
                   p_value (heap s' ! P) = VArr ((all_args (all_ctxs s ! c))[i := w])
              else \<not> latches s' ! L \<and> heap s' ! P = heap s ! P)"
proof -
  let ?ctx = "all_ctxs s ! c"
  let ?args = "(all_args ?ctx)[i := w]"
  let ?s0 = "s\<lparr>all_ctxs := (all_ctxs s)[c := ?ctx\<lparr>all_args := ?args, all_remaining := all_remaining ?ctx - 1\<rparr>]\<rparr>"
  show ?thesis
  proof (cases "all_remaining ?ctx = 1")
    case False
    then have "res_store (exec E (Suc (Suc n))) c i w s = Some (Inr VUndefined, ?s0)"
      by (simp add: res_store_def Let_def)
    with False assms(1) show ?thesis
      by simp
  next
    case True
    then have store: "res_store (exec E (Suc (Suc n))) c i w s
        = exec E (Suc (Suc n)) (Call (ResolveFn L P) (VArr ?args) VUndefined) ?s0"
      using assms(2) by (simp add: res_store_def Let_def apply_val_def del: exec.simps)
    show ?thesis
    proof (cases "latches s ! L")
      case dn: True
      then have "exec E (Suc (Suc n)) (Call (ResolveFn L P) (VArr ?args) VUndefined) ?s0
          = Some (Inr VUndefined, ?s0)"
        by (intro call_latch_done) simp
      with dn True assms(1) show ?thesis
        unfolding store by simp
    next
      case False
      with assms(3,4) have "\<exists>s'. exec E (Suc (Suc n)) (Call (ResolveFn L P) (VArr ?args) VUndefined) ?s0
            = Some (Inr VUndefined, s') \<and>
              p_state (heap s' ! P) = 1 \<and> p_value (heap s' ! P) = VArr ?args \<and>
              length (heap s') = length (heap ?s0) \<and>
              (\<forall>q. q \<noteq> P \<longrightarrow> heap s' ! q = heap ?s0 ! q) \<and>
              any_ctxs s' = any_ctxs ?s0 \<and> all_ctxs s' = all_ctxs ?s0 \<and>
              latches s' = (latches ?s0)[L := True] \<and>
              (\<exists>ts. queue s' = queue ?s0 @ ts)"
        by (intro call_ResolveFn_array) simp_all
      then obtain s1 where
        "exec E (Suc (Suc n)) (Call (ResolveFn L P) (VArr ?args) VUndefined) ?s0 = Some (Inr VUndefined, s1)"
        "p_state (heap s1 ! P) = 1" "p_value (heap s1 ! P) = VArr ?args"
        "length (heap s1) = length (heap s)" "\<forall>q. q \<noteq> P \<longrightarrow> heap s1 ! q = heap s ! q"
        "all_ctxs s1 = all_ctxs ?s0" "latches s1 = (latches s)[L := True]" "\<exists>ts. queue s1 = queue s @ ts"
        by auto
      with False True assms(1,3) show ?thesis
        unfolding store by simp
    qed
  qed
qed

lemma ResAll_rejected:
  assumes c: "c < length (all_ctxs s)"
    and cb: "all_reject (all_ctxs s ! c) = VFun (RejectFn L P)"
    and L: "L < length (latches s)" and P: "P < length (heap s)"
    and q: "q < length (heap s)" "p_state (heap s ! q) = 2" "q \<noteq> P"
  shows "\<exists>s'. exec E (Suc (Suc n)) (ResAll c i (VPromise q)) s = Some (Inr VUndefined, s') \<and>
           length (heap s) \<le> length (heap s') \<and>
           (\<forall>y<length (heap s). y \<noteq> P \<longrightarrow> heap s' ! y = heap s ! y) \<and>
           length (latches s') = length (latches s) \<and>
           all_ctxs s' = all_ctxs s \<and>
           (if latches s ! L then latches s' ! L \<and> heap s' ! P = heap s ! P
            else latches s' ! L \<and> p_state (heap s' ! P) = 2 \<and>
                 p_value (heap s' ! P) = p_value (heap s ! q))"
proof -
  let ?v = "p_value (heap s ! q)"
  have "\<exists>s1. exec E (Suc n) (Call (RejectFn L P) ?v VUndefined) s = Some (Inr VUndefined, s1) \<and>
          length (heap s1) = length (heap s) \<and> (\<forall>y. y \<noteq> P \<longrightarrow> heap s1 ! y = heap s ! y) \<and>
          length (latches s1) = length (latches s) \<and> all_ctxs s1 = all_ctxs s \<and>
          (if latches s ! L then latches s1 ! L \<and> heap s1 ! P = heap s ! P
           else latches s1 ! L \<and> p_state (heap s1 ! P) = 2 \<and> p_value (heap s1 ! P) = ?v)"
  proof (cases "latches s ! L")
    case True
    then have "exec E (Suc n) (Call (RejectFn L P) ?v VUndefined) s = Some (Inr VUndefined, s)"
      by (rule call_latch_done)
    with True show ?thesis by (simp del: exec.simps)
  next
    case False
    from call_RejectFn [OF L False P, of E n ?v VUndefined] False L show ?thesis
      by (auto simp del: exec.simps)
  qed
  then obtain s1 where
    call: "exec E (Suc n) (Call (RejectFn L P) ?v VUndefined) s = Some (Inr VUndefined, s1)"
    and len: "length (heap s1) = length (heap s)"
    and frame: "\<forall>y. y \<noteq> P \<longrightarrow> heap s1 ! y = heap s ! y"
    and lat: "length (latches s1) = length (latches s)"
    and ctx: "all_ctxs s1 = all_ctxs s"
    and out: "if latches s ! L then latches s1 ! L \<and> heap s1 ! P = heap s ! P
           else latches s1 ! L \<and> p_state (heap s1 ! P) = 2 \<and> p_value (heap s1 ! P) = ?v"
    by blast
  from q len frame have q1: "q < length (heap s1)" "p_state (heap s1 ! q) \<noteq> 0" "p_state (heap s1 ! q) \<noteq> 3"
    by simp_all
  have dr: "deref (length (heap s)) (heap s) q = Some q"
    using q(2) by (simp add: deref_settled)
  have "exec E (Suc (Suc n)) (ResAll c i (VPromise q)) s
      = Some (Inr VUndefined, s1\<lparr>heap := heap s1 @ [fresh_promise],
            queue := queue s1 @ [(q, Handler (VFun (AllRes c i)) (VFun (RejectFn L P)) (length (heap s1)))]\<rparr>)"
    using q(2) cb call ctx
    by (simp add: exec_Suc [of E "Suc n"] cmd_body_def [of E "exec E (Suc n)"] res_body_def dr
        apply_val_def then_val_def then_method_settled [OF q1] del: exec.simps)
  with len frame lat ctx out P show ?thesis
    by (simp add: nth_append del: exec.simps split del: if_split cong: if_cong)
qed

lemma not_promise_input:
  assumes "\<not> instanceof_Promise x"
  shows "settled_input h x = plain x" "input_rejected h x = False" "input_value h x = x"
  using assms by (cases x; simp add: settled_input_def input_rejected_def input_value_def)+

lemma promise_input:
  "settled_input h (VPromise q) \<longleftrightarrow>
     q < length h \<and> (p_state (h ! q) = 1 \<and> plain (p_value (h ! q)) \<or> p_state (h ! q) = 2)"
  "input_rejected h (VPromise q) \<longleftrightarrow> p_state (h ! q) = 2"
  "input_value h (VPromise q) = p_value (h ! q)"
  by (simp_all add: settled_input_def input_rejected_def input_value_def)

lemma ResAll_settled:
  assumes c: "c < length (all_ctxs s)"
    and cb: "all_resolve (all_ctxs s ! c) = VFun (ResolveFn L P)"
      "all_reject (all_ctxs s ! c) = VFun (RejectFn L P)"
    and L: "L < length (latches s)" and P: "P < length (heap s)"
    and x: "settled_input (heap s) x" "x \<noteq> VPromise P"
  shows "\<exists>s'. exec E (Suc (Suc (Suc (Suc n)))) (ResAll c i x) s = Some (Inr VUndefined, s') \<and>
           length (heap s) \<le> length (heap s') \<and>
           (\<forall>y<length (heap s). y \<noteq> P \<longrightarrow> heap s' ! y = heap s ! y) \<and>
           length (latches s') = length (latches s) \<and>
           all_ctxs s' = (all_ctxs s)[c :=
              (if input_rejected (heap s) x then all_ctxs s ! c
               else (all_ctxs s ! c)
                 \<lparr>all_args := (all_args (all_ctxs s ! c))[i := input_value (heap s) x],
                   all_remaining := all_remaining (all_ctxs s ! c) - 1\<rparr>)] \<and>
           (if latches s ! L then latches s' ! L \<and> heap s' ! P = heap s ! P
            else if input_rejected (heap s) x
              then latches s' ! L \<and> p_state (heap s' ! P) = 2 \<and>
                   p_value (heap s' ! P) = input_value (heap s) x
            else if all_remaining (all_ctxs s ! c) = 1
              then latches s' ! L \<and> p_state (heap s' ! P) = 1 \<and>
                   p_value (heap s' ! P) = VArr ((all_args (all_ctxs s ! c))[i := input_value (heap s) x])
              else \<not> latches s' ! L \<and> heap s' ! P = heap s ! P)"
proof (cases "instanceof_Promise x")
  case False
  note np = not_promise_input [OF False, of "heap s"]
  from x(1) have pl: "plain x" by (simp add: np)
  have "exec E (Suc (Suc (Suc (Suc n)))) (ResAll c i x) s = res_store (exec E (Suc (Suc (Suc n)))) c i x s"
    by (simp add: exec_Suc [of E "Suc (Suc (Suc n))"] cmd_body_def [of E "exec E (Suc (Suc (Suc n)))"]
        res_body_plain [OF pl] del: exec.simps)
  with res_store_result [OF c cb(1) L P, of E "Suc n" i x] show ?thesis
    unfolding np if_False by (auto simp del: exec.simps split del: if_split cong: if_cong)
next
  case True
  then obtain q where xq: "x = VPromise q" by (cases x) simp_all
  from x xq have q: "q < length (heap s)" "q \<noteq> P"
    and st: "p_state (heap s ! q) = 1 \<and> plain (p_value (heap s ! q)) \<or> p_state (heap s ! q) = 2"
    by (simp_all add: promise_input)
  show ?thesis
  proof (cases "p_state (heap s ! q) = 2")
    case rej: True
    then have e: "input_rejected (heap s) (VPromise q) = True"
      "input_value (heap s) (VPromise q) = p_value (heap s ! q)"
      by (simp_all add: promise_input)
    have same: "(all_ctxs s)[c := all_ctxs s ! c] = all_ctxs s" by simp
    from ResAll_rejected [OF c cb(2) L P q(1) rej q(2), of E "Suc (Suc n)" i] show ?thesis
      unfolding xq e if_True same by (auto simp del: exec.simps split del: if_split cong: if_cong)
  next
    case False
    with st have ful: "p_state (heap s ! q) = 1" and pl: "plain (p_value (heap s ! q))" by simp_all
    from False have e: "input_rejected (heap s) (VPromise q) = False"
      "input_value (heap s) (VPromise q) = p_value (heap s ! q)"
      by (simp_all add: promise_input)
    have dr: "deref (length (heap s)) (heap s) q = Some q"
      using ful by (simp add: deref_settled)
    have "exec E (Suc (Suc (Suc (Suc n)))) (ResAll c i (VPromise q)) s
        = res_store (exec E (Suc (Suc n))) c i (p_value (heap s ! q)) s"
      using ful
      by (simp add: exec_Suc [of E "Suc (Suc (Suc n))"] exec_Suc [of E "Suc (Suc n)"]
          cmd_body_def [of E "exec E (Suc (Suc (Suc n)))"] cmd_body_def [of E "exec E (Suc (Suc n))"]
          res_body_def [of "exec E (Suc (Suc (Suc n)))"] dr res_body_plain [OF pl] del: exec.simps)
    with res_store_result [OF c cb(1) L P, of E n i "p_value (heap s ! q)"] show ?thesis
      unfolding xq e if_False by (auto simp del: exec.simps split del: if_split cong: if_cong)
  qed
qed

lemma input_cong:
  assumes "length h \<le> length h1" "settled_input h x" "\<forall>y<length h. y \<noteq> P \<longrightarrow> h1 ! y = h ! y"
    "x \<noteq> VPromise P"
  shows "settled_input h1 x" "input_rejected h1 x = input_rejected h x" "input_value h1 x = input_value h x"
proof -
  have "settled_input h1 x \<and> input_rejected h1 x = input_rejected h x \<and> input_value h1 x = input_value h x"
  proof (cases "instanceof_Promise x")
    case False
    with assms(2) show ?thesis by (simp add: not_promise_input)
  next
    case True
    then obtain q where "x = VPromise q" by (cases x) simp_all
    with assms show ?thesis by (auto simp: promise_input)
  qed
  then show "settled_input h1 x" "input_rejected h1 x = input_rejected h x" "input_value h1 x = input_value h x"
    by simp_all
qed

lemma fold_update_length: "length (fold (\<lambda>i a. a[i := g i]) is a) = length a"
  by (induction "is" arbitrary: a) simp_all

lemma fold_update_nth:
  "j < length a \<Longrightarrow> fold (\<lambda>i a. a[i := g i]) is a ! j = (if j \<in> set is then g j else a ! j)"
  by (induction "is" arbitrary: a) (auto simp: nth_list_update)

lemma fold_update_upt: "fold (\<lambda>i a. a[i := f (xs ! i)]) [0..<length xs] xs = map f xs"
  by (rule nth_equalityI) (simp_all add: fold_update_length fold_update_nth)

lemma all_loop_done:
  assumes "c < length (all_ctxs s)"
    and "all_resolve (all_ctxs s ! c) = VFun (ResolveFn L P)"
    and "all_reject (all_ctxs s ! c) = VFun (RejectFn L P)"
    and "L < length (latches s)" "latches s ! L" "P < length (heap s)"
    and "distinct is"
    and "\<forall>i\<in>set is. i < length (all_args (all_ctxs s ! c)) \<and>
           settled_input (heap s) (all_args (all_ctxs s ! c) ! i) \<and>
           all_args (all_ctxs s ! c) ! i \<noteq> VPromise P"
  shows "\<exists>s'. all_loop (exec E (Suc (Suc (Suc (Suc n))))) c is s = Some (Inr VUndefined, s') \<and>
              heap s' ! P = heap s ! P"
  using assms
proof (induction "is" arbitrary: s)
  case Nil
  show ?case by simp
next
  case (Cons i "is")
  let ?N = "Suc (Suc (Suc (Suc n)))"
  let ?args = "all_args (all_ctxs s ! c)"
  let ?x = "?args ! i"
  from Cons.prems have x: "settled_input (heap s) ?x" "?x \<noteq> VPromise P" by simp_all
  from ResAll_settled [OF Cons.prems(1,2,3,4,6) x, of E n i] Cons.prems(5) obtain s1 where
    run: "exec E ?N (ResAll c i ?x) s = Some (Inr VUndefined, s1)"
    and len: "length (heap s) \<le> length (heap s1)"
    and frame: "\<forall>y<length (heap s). y \<noteq> P \<longrightarrow> heap s1 ! y = heap s ! y"
    and lat: "length (latches s1) = length (latches s)" "latches s1 ! L"
    and P1: "heap s1 ! P = heap s ! P"
    and ctx: "all_ctxs s1 = (all_ctxs s)[c :=
              (if input_rejected (heap s) ?x then all_ctxs s ! c
               else (all_ctxs s ! c)
                 \<lparr>all_args := ?args[i := input_value (heap s) ?x],
                   all_remaining := all_remaining (all_ctxs s ! c) - 1\<rparr>)]"
    by (auto simp del: exec.simps)
  have args1: "all_args (all_ctxs s1 ! c) ! j = ?args ! j" "length (all_args (all_ctxs s1 ! c)) = length ?args"
    if "j \<noteq> i" for j
    using that Cons.prems(1) ctx by simp_all
  have "\<exists>s'. all_loop (exec E ?N) c is s1 = Some (Inr VUndefined, s') \<and> heap s' ! P = heap s1 ! P"
  proof (rule Cons.IH)
    show "c < length (all_ctxs s1)" using Cons.prems(1) ctx by simp
    show "all_resolve (all_ctxs s1 ! c) = VFun (ResolveFn L P)"
      "all_reject (all_ctxs s1 ! c) = VFun (RejectFn L P)"
      using Cons.prems(1,2,3) ctx by simp_all
    show "L < length (latches s1)" "latches s1 ! L" using Cons.prems(4) lat by simp_all
    show "P < length (heap s1)" using Cons.prems(6) len by simp
    show "distinct is" using Cons.prems(7) by simp
    show "\<forall>j\<in>set is. j < length (all_args (all_ctxs s1 ! c)) \<and>
           settled_input (heap s1) (all_args (all_ctxs s1 ! c) ! j) \<and>
           all_args (all_ctxs s1 ! c) ! j \<noteq> VPromise P"
    proof
      fix j assume j: "j \<in> set is"
      with Cons.prems(7) have ji: "j \<noteq> i" by auto
      from j Cons.prems(8) have a: "j < length ?args" "settled_input (heap s) (?args ! j)"
        "?args ! j \<noteq> VPromise P" by simp_all
      from input_cong(1) [OF len a(2) frame a(3)] a args1 [OF ji]
      show "j < length (all_args (all_ctxs s1 ! c)) \<and>
           settled_input (heap s1) (all_args (all_ctxs s1 ! c) ! j) \<and>
           all_args (all_ctxs s1 ! c) ! j \<noteq> VPromise P"
        by simp
    qed
  qed
  with run P1 show ?case
    by (simp del: exec.simps)
qed

lemma all_loop_settled:
  assumes "is \<noteq> []"
    and "c < length (all_ctxs s)"
    and "all_resolve (all_ctxs s ! c) = VFun (ResolveFn L P)"
    and "all_reject (all_ctxs s ! c) = VFun (RejectFn L P)"
    and "all_remaining (all_ctxs s ! c) = int (length is)"
    and "L < length (latches s)" "\<not> latches s ! L" "P < length (heap s)"
    and "distinct is"
    and "\<forall>i\<in>set is. i < length (all_args (all_ctxs s ! c)) \<and>
           settled_input (heap s) (all_args (all_ctxs s ! c) ! i) \<and>
           all_args (all_ctxs s ! c) ! i \<noteq> VPromise P"
  shows "\<exists>s'. all_loop (exec E (Suc (Suc (Suc (Suc n))))) c is s = Some (Inr VUndefined, s') \<and>
           (case find (input_rejected (heap s)) (map (\<lambda>i. all_args (all_ctxs s ! c) ! i) is) of
              None \<Rightarrow> p_state (heap s' ! P) = 1 \<and>
                      p_value (heap s' ! P) =
                        VArr (fold (\<lambda>i a. a[i := input_value (heap s) (all_args (all_ctxs s ! c) ! i)]) is
                                (all_args (all_ctxs s ! c)))
            | Some x \<Rightarrow> p_state (heap s' ! P) = 2 \<and> p_value (heap s' ! P) = input_value (heap s) x)"
  using assms
proof (induction "is" arbitrary: s)
  case Nil
  then show ?case by simp
next
  case (Cons i "is")
  let ?N = "Suc (Suc (Suc (Suc n)))"
  let ?args = "all_args (all_ctxs s ! c)"
  let ?x = "?args ! i"
  from Cons.prems have x: "settled_input (heap s) ?x" "?x \<noteq> VPromise P" by simp_all
  from ResAll_settled [OF Cons.prems(2,3,4,6,8) x, of E n i] Cons.prems(7) obtain s1 where
    run: "exec E ?N (ResAll c i ?x) s = Some (Inr VUndefined, s1)"
    and len: "length (heap s) \<le> length (heap s1)"
    and frame: "\<forall>y<length (heap s). y \<noteq> P \<longrightarrow> heap s1 ! y = heap s ! y"
    and lat: "length (latches s1) = length (latches s)"
    and ctx: "all_ctxs s1 = (all_ctxs s)[c :=
              (if input_rejected (heap s) ?x then all_ctxs s ! c
               else (all_ctxs s ! c)
                 \<lparr>all_args := ?args[i := input_value (heap s) ?x],
                   all_remaining := all_remaining (all_ctxs s ! c) - 1\<rparr>)]"
    and out: "if input_rejected (heap s) ?x
              then latches s1 ! L \<and> p_state (heap s1 ! P) = 2 \<and>
                   p_value (heap s1 ! P) = input_value (heap s) ?x
            else if all_remaining (all_ctxs s ! c) = 1
              then latches s1 ! L \<and> p_state (heap s1 ! P) = 1 \<and>
                   p_value (heap s1 ! P) = VArr (?args[i := input_value (heap s) ?x])
              else \<not> latches s1 ! L \<and> heap s1 ! P = heap s ! P"
    by (auto simp del: exec.simps split del: if_split cong: if_cong)
  have args1: "all_args (all_ctxs s1 ! c) ! j = ?args ! j" if "j \<noteq> i" for j
    using that Cons.prems(2) ctx by simp
  have alen: "length (all_args (all_ctxs s1 ! c)) = length ?args"
    using Cons.prems(2) ctx by simp
  have c1: "c < length (all_ctxs s1)" using Cons.prems(2) ctx by simp
  have cb1: "all_resolve (all_ctxs s1 ! c) = VFun (ResolveFn L P)"
    "all_reject (all_ctxs s1 ! c) = VFun (RejectFn L P)"
    using Cons.prems(2,3,4) ctx by simp_all
  have L1: "L < length (latches s1)" using Cons.prems(6) lat by simp
  have P1: "P < length (heap s1)" using Cons.prems(8) len by simp
  have d1: "distinct is" using Cons.prems(9) by simp
  have ji: "j \<noteq> i" if "j \<in> set is" for j using that Cons.prems(9) by auto
  have old: "j < length ?args" "settled_input (heap s) (?args ! j)" "?args ! j \<noteq> VPromise P"
    if "j \<in> set is" for j
    using that Cons.prems(10) by simp_all
  have cond1: "\<forall>j\<in>set is. j < length (all_args (all_ctxs s1 ! c)) \<and>
           settled_input (heap s1) (all_args (all_ctxs s1 ! c) ! j) \<and>
           all_args (all_ctxs s1 ! c) ! j \<noteq> VPromise P"
  proof
    fix j assume j: "j \<in> set is"
    from input_cong(1) [OF len old(2) [OF j] frame old(3) [OF j]] old [OF j] args1 [OF ji [OF j]] alen
    show "j < length (all_args (all_ctxs s1 ! c)) \<and>
           settled_input (heap s1) (all_args (all_ctxs s1 ! c) ! j) \<and>
           all_args (all_ctxs s1 ! c) ! j \<noteq> VPromise P"
      by simp
  qed
  show ?case
  proof (cases "input_rejected (heap s) ?x")
    case True
    with out have o: "latches s1 ! L" "p_state (heap s1 ! P) = 2"
      "p_value (heap s1 ! P) = input_value (heap s) ?x"
      by simp_all
    from all_loop_done [OF c1 cb1 L1 o(1) P1 d1 cond1, of E n] obtain s' where
      "all_loop (exec E ?N) c is s1 = Some (Inr VUndefined, s')" "heap s' ! P = heap s1 ! P"
      by blast
    with o True run show ?thesis
      by (simp del: exec.simps)
  next
    case False
    have a1: "all_args (all_ctxs s1 ! c) = ?args[i := input_value (heap s) ?x]"
      using Cons.prems(2) ctx False by simp
    show ?thesis
    proof (cases "is = []")
      case True
      with Cons.prems(5) out False have "p_state (heap s1 ! P) = 1"
        "p_value (heap s1 ! P) = VArr (?args[i := input_value (heap s) ?x])"
        by simp_all
      with True False run show ?thesis
        by (simp del: exec.simps)
    next
      case ne: False
      with Cons.prems(5) have "all_remaining (all_ctxs s ! c) \<noteq> 1"
        by (cases "is") simp_all
      with out False have nd: "\<not> latches s1 ! L" by simp
      have rem: "all_remaining (all_ctxs s1 ! c) = int (length is)"
        using Cons.prems(2,5) ctx False by simp
      from Cons.IH [OF ne c1 cb1 rem L1 nd P1 d1 cond1] obtain s' where
        rq: "all_loop (exec E ?N) c is s1 = Some (Inr VUndefined, s')"
        and res: "case find (input_rejected (heap s1)) (map (\<lambda>i. all_args (all_ctxs s1 ! c) ! i) is) of
              None \<Rightarrow> p_state (heap s' ! P) = 1 \<and>
                      p_value (heap s' ! P) =
                        VArr (fold (\<lambda>i a. a[i := input_value (heap s1) (all_args (all_ctxs s1 ! c) ! i)]) is
                                (all_args (all_ctxs s1 ! c)))
            | Some x \<Rightarrow> p_state (heap s' ! P) = 2 \<and> p_value (heap s' ! P) = input_value (heap s1) x"
        by blast
      have m: "map (\<lambda>i. all_args (all_ctxs s1 ! c) ! i) is = map (\<lambda>i. ?args ! i) is"
        using args1 ji by simp
      have ic: "input_rejected (heap s1) y = input_rejected (heap s) y"
        "input_value (heap s1) y = input_value (heap s) y"
        if "y \<in> set (map (\<lambda>i. ?args ! i) is)" for y
      proof -
        from that obtain j where j: "j \<in> set is" "y = ?args ! j" by auto
        from input_cong(2,3) [OF len old(2) [OF j(1)] frame old(3) [OF j(1)]] j(2)
        show "input_rejected (heap s1) y = input_rejected (heap s) y"
          "input_value (heap s1) y = input_value (heap s) y"
          by simp_all
      qed
      have f: "find (input_rejected (heap s1)) (map (\<lambda>i. ?args ! i) is)
                 = find (input_rejected (heap s)) (map (\<lambda>i. ?args ! i) is)"
        by (rule find_cong [OF refl]) (rule ic)
      have fo: "fold (\<lambda>i a. a[i := input_value (heap s1) (all_args (all_ctxs s1 ! c) ! i)]) is b
                  = fold (\<lambda>i a. a[i := input_value (heap s) (?args ! i)]) is b" for b
      proof (rule fold_cong [OF refl refl])
        fix j assume j: "j \<in> set is"
        have "input_value (heap s1) (?args ! j) = input_value (heap s) (?args ! j)"
          by (rule ic) (use j in simp)
        then show "(\<lambda>a. a[j := input_value (heap s1) (all_args (all_ctxs s1 ! c) ! j)])
                 = (\<lambda>a. a[j := input_value (heap s) (?args ! j)])"
          using args1 [OF ji [OF j]] by simp
      qed
      have v: "input_value (heap s1) y = input_value (heap s) y"
        if "find (input_rejected (heap s)) (map (\<lambda>i. ?args ! i) is) = Some y" for y
      proof -
        from that have "y \<in> set (map (\<lambda>i. ?args ! i) is)"
          by (auto simp: find_Some_iff)
        then show ?thesis by (rule ic)
      qed
      note res' = res [unfolded m f fo]
      from res' have "case find (input_rejected (heap s)) (map (\<lambda>i. ?args ! i) (i # is)) of
              None \<Rightarrow> p_state (heap s' ! P) = 1 \<and>
                      p_value (heap s' ! P) =
                        VArr (fold (\<lambda>i a. a[i := input_value (heap s) (?args ! i)]) (i # is) ?args)
            | Some x \<Rightarrow> p_state (heap s' ! P) = 2 \<and> p_value (heap s' ! P) = input_value (heap s) x"
        unfolding a1 using v False by (auto split: option.splits)
      with rq run show ?thesis
        by (simp del: exec.simps)
    qed
  qed
qed

lemma settled_input_old: "settled_input h x \<Longrightarrow> x \<noteq> VPromise (length h)"
  by (auto simp: promise_input)

lemma Promise_all_empty:
  "\<exists>s1. Promise_all E (Suc (Suc (Suc (Suc (Suc (Suc (Suc n))))))) [] s
           = Some (Inr (VPromise (length (heap s))), s1) \<and>
        p_state (heap s1 ! length (heap s)) = 1 \<and> p_value (heap s1 ! length (heap s)) = VArr []"
  by (simp add: Promise_all_def new_Promise_def cmd_body_def new_Promise_body_def alloc_def
      doResolve_body_def call_body_def Let_def apply_val_def resolve_body_def getThen_def
      finale_no_waiters upd_def fresh_promise_def nth_append)

lemma Promise_all_settled_inputs:
  assumes "\<forall>x\<in>set xs. settled_input (heap s) x"
  shows "\<exists>s1. Promise_all E (Suc (Suc (Suc (Suc (Suc (Suc (Suc n))))))) xs s
                = Some (Inr (VPromise (length (heap s))), s1) \<and>
           (case find (input_rejected (heap s)) xs of
              None \<Rightarrow> p_state (heap s1 ! length (heap s)) = 1 \<and>
                      p_value (heap s1 ! length (heap s)) = VArr (map (input_value (heap s)) xs)
            | Some x \<Rightarrow> p_state (heap s1 ! length (heap s)) = 2 \<and>
                        p_value (heap s1 ! length (heap s)) = input_value (heap s) x)"
proof (cases "xs = []")
  case True
  with Promise_all_empty [of E n s] show ?thesis by simp
next
  case False
  let ?P = "length (heap s)" and ?L = "length (latches s)" and ?C = "length (all_ctxs s)"
  let ?N = "Suc (Suc (Suc (Suc n)))"
  let ?s0 = "s\<lparr>heap := heap s @ [fresh_promise], latches := latches s @ [False],
               all_ctxs := all_ctxs s @
                 [\<lparr> all_args = xs, all_remaining = int (length xs),
                    all_resolve = VFun (ResolveFn ?L ?P), all_reject = VFun (RejectFn ?L ?P) \<rparr>]\<rparr>"
  have frame: "\<forall>y<length (heap s). y \<noteq> ?P \<longrightarrow> heap ?s0 ! y = heap s ! y"
    by (simp add: nth_append)
  have len: "length (heap s) \<le> length (heap ?s0)" by simp
  have ic: "settled_input (heap ?s0) x" "input_rejected (heap ?s0) x = input_rejected (heap s) x"
    "input_value (heap ?s0) x = input_value (heap s) x" if "x \<in> set xs" for x
  proof -
    from that assms have x: "settled_input (heap s) x" by simp
    from input_cong [OF len x frame settled_input_old [OF x]]
    show "settled_input (heap ?s0) x" "input_rejected (heap ?s0) x = input_rejected (heap s) x"
    "input_value (heap ?s0) x = input_value (heap s) x"
      by simp_all
  qed
  have args0: "all_args (all_ctxs ?s0 ! ?C) = xs" by simp
  have "\<exists>s'. all_loop (exec E ?N) ?C [0..<length xs] ?s0 = Some (Inr VUndefined, s') \<and>
           (case find (input_rejected (heap ?s0)) (map (\<lambda>i. all_args (all_ctxs ?s0 ! ?C) ! i) [0..<length xs]) of
              None \<Rightarrow> p_state (heap s' ! ?P) = 1 \<and>
                      p_value (heap s' ! ?P) =
                        VArr (fold (\<lambda>i a. a[i := input_value (heap ?s0) (all_args (all_ctxs ?s0 ! ?C) ! i)])
                                [0..<length xs] (all_args (all_ctxs ?s0 ! ?C)))
            | Some x \<Rightarrow> p_state (heap s' ! ?P) = 2 \<and> p_value (heap s' ! ?P) = input_value (heap ?s0) x)"
  proof (rule all_loop_settled [where L = ?L])
    show "[0..<length xs] \<noteq> []" using False by simp
    show "?C < length (all_ctxs ?s0)" by simp
    show "all_resolve (all_ctxs ?s0 ! ?C) = VFun (ResolveFn ?L ?P)"
      "all_reject (all_ctxs ?s0 ! ?C) = VFun (RejectFn ?L ?P)"
      "all_remaining (all_ctxs ?s0 ! ?C) = int (length [0..<length xs])"
      by simp_all
    show "?L < length (latches ?s0)" "\<not> latches ?s0 ! ?L" "?P < length (heap ?s0)" by simp_all
    show "distinct [0..<length xs]" by simp
    show "\<forall>i\<in>set [0..<length xs]. i < length (all_args (all_ctxs ?s0 ! ?C)) \<and>
           settled_input (heap ?s0) (all_args (all_ctxs ?s0 ! ?C) ! i) \<and>
           all_args (all_ctxs ?s0 ! ?C) ! i \<noteq> VPromise ?P"
      unfolding args0 using ic(1) settled_input_old assms by auto
  qed
  then obtain s' where
    loop: "all_loop (exec E ?N) ?C [0..<length xs] ?s0 = Some (Inr VUndefined, s')"
    and res: "case find (input_rejected (heap ?s0)) (map (\<lambda>i. xs ! i) [0..<length xs]) of
              None \<Rightarrow> p_state (heap s' ! ?P) = 1 \<and>
                      p_value (heap s' ! ?P) =
                        VArr (fold (\<lambda>i a. a[i := input_value (heap ?s0) (xs ! i)]) [0..<length xs] xs)
            | Some x \<Rightarrow> p_state (heap s' ! ?P) = 2 \<and> p_value (heap s' ! ?P) = input_value (heap ?s0) x"
    unfolding args0 by blast
  have m: "map (\<lambda>i. xs ! i) [0..<length xs] = xs" by (rule map_nth)
  have f: "find (input_rejected (heap ?s0)) xs = find (input_rejected (heap s)) xs"
    by (rule find_cong [OF refl]) (rule ic(2))
  have fo: "fold (\<lambda>i a. a[i := input_value (heap ?s0) (xs ! i)]) [0..<length xs] xs
      = map (input_value (heap s)) xs"
    unfolding fold_update_upt by (rule map_cong [OF refl]) (rule ic(3))
  have v: "input_value (heap ?s0) x = input_value (heap s) x"
    if "find (input_rejected (heap s)) xs = Some x" for x
  proof -
    from that have "x \<in> set xs" by (auto simp: find_Some_iff)
    then show ?thesis by (rule ic(3))
  qed
  note res' = res [unfolded m f fo]
  have out: "case find (input_rejected (heap s)) xs of
              None \<Rightarrow> p_state (heap s' ! ?P) = 1 \<and>
                      p_value (heap s' ! ?P) = VArr (map (input_value (heap s)) xs)
            | Some x \<Rightarrow> p_state (heap s' ! ?P) = 2 \<and> p_value (heap s' ! ?P) = input_value (heap s) x"
    using res' v by (auto split: option.splits)
  have "Promise_all E (Suc (Suc (Suc ?N))) xs s = Some (Inr (VPromise ?P), s')"
    using loop False
    by (simp add: Promise_all_def new_Promise_def exec_Suc [of E "Suc (Suc ?N)"]
        exec_Suc [of E "Suc ?N"] exec_Suc [of E ?N]
        cmd_body_def [of E "exec E (Suc (Suc ?N))"] cmd_body_def [of E "exec E (Suc ?N)"]
        cmd_body_def [of E "exec E ?N"]
        new_Promise_body_def alloc_def doResolve_body_def call_body_def Let_def del: exec.simps)
  with out show ?thesis by blast
qed




lemma ok_mono:
  "nh \<le> nh' \<Longrightarrow> na \<le> na' \<Longrightarrow> nb \<le> nb' \<Longrightarrow> ok_val p nh na nb v \<Longrightarrow> ok_val p nh' na' nb' v"
  "nh \<le> nh' \<Longrightarrow> na \<le> na' \<Longrightarrow> nb \<le> nb' \<Longrightarrow> ok_fn p nh na nb f \<Longrightarrow> ok_fn p nh' na' nb' f"
  "nh \<le> nh' \<Longrightarrow> na \<le> na' \<Longrightarrow> nb \<le> nb' \<Longrightarrow> ok_call p nh na nb c \<Longrightarrow> ok_call p nh' na' nb' c"
  by (induction p nh na nb v and p nh na nb f and p nh na nb c rule: ok_val_ok_fn_ok_call.induct) auto

lemma grows_refl [simp]: "grows s s"
  by (simp add: grows_def)

lemma grows_trans: "grows s t \<Longrightarrow> grows t u \<Longrightarrow> grows s u"
  by (auto simp: grows_def)

lemma ok_in_grows:
  assumes "grows s s'"
  shows "ok_in p s v \<Longrightarrow> ok_in p s' v" "ok_fn_in p s f \<Longrightarrow> ok_fn_in p s' f"
    "ok_handler_in p s d \<Longrightarrow> ok_handler_in p s' d"
  using assms
  by (auto simp: grows_def ok_in_def ok_fn_in_def ok_handler_in_def ok_handler_def
      split: option.splits intro: ok_mono)

lemma ok_in_same:
  assumes "length (heap s') = length (heap s)" "length (all_ctxs s') = length (all_ctxs s)"
    "length (any_ctxs s') = length (any_ctxs s)"
  shows "ok_in p s' = ok_in p s" "ok_fn_in p s' = ok_fn_in p s" "ok_handler_in p s' = ok_handler_in p s"
  using assms by (simp_all add: ok_in_def ok_fn_in_def ok_handler_in_def fun_eq_iff)

lemma ok_in_simps [simp]:
  "ok_in p (s\<lparr>queue := qu\<rparr>) = ok_in p s"
  "ok_in p (s\<lparr>latches := la\<rparr>) = ok_in p s"
  "ok_in p (upd q f s) = ok_in p s"
  "ok_fn_in p (s\<lparr>queue := qu\<rparr>) = ok_fn_in p s"
  "ok_fn_in p (s\<lparr>latches := la\<rparr>) = ok_fn_in p s"
  "ok_fn_in p (upd q f s) = ok_fn_in p s"
  "ok_handler_in p (s\<lparr>queue := qu\<rparr>) = ok_handler_in p s"
  "ok_handler_in p (s\<lparr>latches := la\<rparr>) = ok_handler_in p s"
  "ok_handler_in p (upd q f s) = ok_handler_in p s"
  by (simp_all add: ok_in_def ok_fn_in_def ok_handler_in_def fun_eq_iff upd_def)

lemma ok_in_basic [simp]:
  "ok_in p s VUndefined" "ok_in p s VNull" "ok_in p s (VBool b)" "ok_in p s (VNum i)"
  "ok_in p s (VStr x)" "ok_in p s (VTypeError x)"
  "ok_in p s (VFun f) = ok_fn_in p s f"
  "ok_in p s (VPromise q) = (q < length (heap s))"
  "ok_in p s (VArr xs) = (\<forall>x\<in>set xs. ok_in p s x)"
  "ok_in p s (VAggregateError xs) = (\<forall>x\<in>set xs. ok_in p s x)"
  "ok_in p s (VRecord b v) = ok_in p s v"
  "ok_fn_in p s (ResolveFn l q) = (q \<noteq> p \<and> q < length (heap s))"
  "ok_fn_in p s (RejectFn l q) = (q \<noteq> p \<and> q < length (heap s))"
  by (simp_all add: ok_in_def ok_fn_in_def)

lemma fresh_fields [simp]:
  "p_state fresh_promise = 0" "p_value fresh_promise = VNull"
  "p_deferreds fresh_promise = []" "p_deferredState fresh_promise = 0"
  by (simp_all add: fresh_promise_def)

lemma confined_latches [simp]: "confined p (s\<lparr>latches := la\<rparr>) = confined p s"
  by (simp add: confined_def)

lemma confined_upd:
  assumes "confined p s"
    and "ok_in p s (p_value (f (heap s ! q)))"
    and "\<forall>d\<in>set (p_deferreds (f (heap s ! q))). ok_handler_in p s d"
    and "q = p \<longrightarrow> p_state (f (heap s ! q)) = 0"
  shows "confined p (upd q f s)"
proof (cases "q < length (heap s)")
  case False
  then have "upd q f s = s" by (simp add: upd_def list_update_beyond)
  with assms(1) show ?thesis by simp
next
  case True
  have sub: "set ((heap s)[q := f (heap s ! q)]) \<subseteq> insert (f (heap s ! q)) (set (heap s))"
    by (rule set_update_subset_insert)
  have len: "length (heap (upd q f s)) = length (heap s)" "all_ctxs (upd q f s) = all_ctxs s"
    "any_ctxs (upd q f s) = any_ctxs s" "queue (upd q f s) = queue s"
    "heap (upd q f s) = (heap s)[q := f (heap s ! q)]"
    by (simp_all add: upd_def)
  from assms(1) have c: "p < length (heap s)" "p_state (heap s ! p) = 0"
    "\<forall>ob\<in>set (heap s). ok_in p s (p_value ob) \<and> (\<forall>d\<in>set (p_deferreds ob). ok_handler_in p s d)"
    by (simp_all add: confined_def)
  have "\<forall>ob\<in>set (heap (upd q f s)). ok_in p s (p_value ob) \<and> (\<forall>d\<in>set (p_deferreds ob). ok_handler_in p s d)"
    unfolding len using sub c(3) assms(2,3) by blast
  moreover have "p_state (heap (upd q f s) ! p) = 0"
    unfolding len using c True assms(4) by (simp add: nth_list_update)
  ultimately show ?thesis
    using assms(1) unfolding confined_def len ok_in_simps by simp
qed

lemma confined_enqueue:
  assumes "confined p s" "q < length (heap s)" "q \<noteq> p" "ok_handler_in p s d"
  shows "confined p (s\<lparr>queue := queue s @ [(q, d)]\<rparr>)"
  using assms by (simp add: confined_def)

lemma confined_dequeue:
  assumes "confined p s" "queue s = t # ts"
  shows "confined p (s\<lparr>queue := ts\<rparr>)" "fst t < length (heap s)" "fst t \<noteq> p" "ok_handler_in p s (snd t)"
  using assms by (simp_all add: confined_def)

lemma confined_alloc:
  assumes "confined p s"
  shows "confined p (s\<lparr>heap := heap s @ [fresh_promise]\<rparr>)"
    "grows s (s\<lparr>heap := heap s @ [fresh_promise]\<rparr>)"
proof -
  let ?s' = "s\<lparr>heap := heap s @ [fresh_promise]\<rparr>"
  show g: "grows s ?s'" by (simp add: grows_def)
  note up = ok_in_grows [OF g]
  from assms show "confined p ?s'"
    unfolding confined_def
    by (auto simp: nth_append intro: up)
qed

lemma confined_heap_ok:
  assumes "confined p s" "q < length (heap s)"
  shows "ok_in p s (p_value (heap s ! q))" "\<forall>d\<in>set (p_deferreds (heap s ! q)). ok_handler_in p s d"
  using assms nth_mem [of q "heap s"] by (auto simp: confined_def)

lemma deref_ok:
  assumes "confined p s"
  shows "q0 < length (heap s) \<Longrightarrow> deref k (heap s) q0 = Some q \<Longrightarrow>
         q < length (heap s) \<and> p_state (heap s ! q) \<noteq> 3"
proof (induction k arbitrary: q0)
  case 0
  then show ?case by (auto simp: deref.simps [of 0] split: if_splits)
next
  case (Suc k)
  show ?case
  proof (cases "p_state (heap s ! q0) = 3")
    case False
    with Suc.prems show ?thesis by (simp add: deref.simps [of "Suc k"])
  next
    case True
    with Suc.prems(2) obtain q1 where v: "p_value (heap s ! q0) = VPromise q1"
      and d: "deref k (heap s) q1 = Some q"
      by (auto simp: deref.simps [of "Suc k"] split: val.splits)
    from confined_heap_ok(1) [OF assms Suc.prems(1)] v have "q1 < length (heap s)" by simp
    from Suc.IH [OF this d] show ?thesis .
  qed
qed

lemma handle_conf:
  assumes "confined p s" "q0 < length (heap s)" "ok_handler_in p s d" "handle q0 d s = Some s'"
  shows "confined p s' \<and> grows s s'"
proof -
  from assms(4) obtain q where dr: "deref (length (heap s)) (heap s) q0 = Some q"
    by (auto simp: handle_def split: option.splits)
  from deref_ok [OF assms(1,2) dr] have q: "q < length (heap s)" "p_state (heap s ! q) \<noteq> 3" by simp_all
  note old = confined_heap_ok [OF assms(1) q(1)]
  from assms(1) have p0: "p_state (heap s ! p) = 0" by (simp add: confined_def)
  show ?thesis
  proof (cases "p_state (heap s ! q) = 0")
    case True
    have g: "grows s (upd q f s)" for f by (simp add: grows_def upd_def)
    from True assms(4) dr consider
      (a) "s' = upd q (\<lambda>ob. ob\<lparr>p_deferredState := 1, p_deferreds := [d]\<rparr>) s"
      | (b) "s' = upd q (\<lambda>ob. ob\<lparr>p_deferredState := 2, p_deferreds := p_deferreds ob @ [d]\<rparr>) s"
      | (c) "s' = upd q (\<lambda>ob. ob\<lparr>p_deferreds := p_deferreds ob @ [d]\<rparr>) s"
      by (auto simp: handle_def split: if_splits)
    then show ?thesis
    proof cases
      case a
      have "confined p (upd q (\<lambda>ob. ob\<lparr>p_deferredState := 1, p_deferreds := [d]\<rparr>) s)"
        by (rule confined_upd [OF assms(1)]) (use old assms(3) True in auto)
      with a g show ?thesis by simp
    next
      case b
      have "confined p (upd q (\<lambda>ob. ob\<lparr>p_deferredState := 2, p_deferreds := p_deferreds ob @ [d]\<rparr>) s)"
        by (rule confined_upd [OF assms(1)]) (use old assms(3) True in auto)
      with b g show ?thesis by simp
    next
      case c
      have "confined p (upd q (\<lambda>ob. ob\<lparr>p_deferreds := p_deferreds ob @ [d]\<rparr>) s)"
        by (rule confined_upd [OF assms(1)]) (use old assms(3) True in auto)
      with c g show ?thesis by simp
    qed
  next
    case False
    with p0 have "q \<noteq> p" by auto
    from False assms(4) dr have "s' = s\<lparr>queue := queue s @ [(q, d)]\<rparr>"
      by (simp add: handle_def handleResolved_def)
    with confined_enqueue [OF assms(1) q(1) \<open>q \<noteq> p\<close> assms(3)] show ?thesis
      by (simp add: grows_def)
  qed
qed

lemma same_sizes_grows:
  "grows s s' \<Longrightarrow> grows s (upd q f s')" "grows s s' \<Longrightarrow> grows s (s'\<lparr>queue := qu\<rparr>)"
  "grows s s' \<Longrightarrow> grows s (s'\<lparr>latches := la\<rparr>)"
  by (simp_all add: grows_def upd_def)

lemma handle_each_conf:
  assumes "q0 < length (heap s)"
  shows "confined p s \<Longrightarrow> \<forall>d\<in>set ds. ok_handler_in p s d \<Longrightarrow> handle_each q0 ds s = Some s' \<Longrightarrow>
         confined p s' \<and> grows s s'"
  using assms
proof (induction ds arbitrary: s)
  case Nil
  then show ?case by simp
next
  case (Cons d ds)
  from Cons.prems(3) obtain s1 where h: "handle q0 d s = Some s1" and r: "handle_each q0 ds s1 = Some s'"
    by (auto split: option.splits)
  from handle_conf [OF Cons.prems(1,4) _ h] Cons.prems(2) have 1: "confined p s1" "grows s s1"
    by simp_all
  from 1(2) Cons.prems(4) have q1: "q0 < length (heap s1)" by (simp add: grows_def)
  have "\<forall>d\<in>set ds. ok_handler_in p s1 d"
    using Cons.prems(2) ok_in_grows(3) [OF 1(2)] by simp
  from Cons.IH [OF 1(1) this r q1] 1(2) show ?case
    by (auto intro: grows_trans)
qed

lemma clear_deferreds_conf:
  "confined p s \<Longrightarrow> confined p (upd q (\<lambda>ob. ob\<lparr>p_deferreds := []\<rparr>) s)"
proof (cases "q < length (heap s)")
  case True
  assume c: "confined p s"
  show ?thesis
    by (rule confined_upd [OF c]) (use confined_heap_ok [OF c True] c in \<open>auto simp: confined_def\<close>)
next
  case False
  assume "confined p s"
  with False show ?thesis by (simp add: upd_def list_update_beyond)
qed

lemma finale_conf:
  assumes "confined p s" "q < length (heap s)" "finale q s = Some s'"
  shows "confined p s' \<and> grows s s'"
proof -
  let ?clear = "upd q (\<lambda>ob. ob\<lparr>p_deferreds := []\<rparr>)"
  have step: "confined p t' \<and> grows t t'"
    if "confined p t" "q < length (heap t)"
      "(if k then (case handle_each q (p_deferreds (heap t ! q)) t of None \<Rightarrow> None
                   | Some u \<Rightarrow> Some (?clear u)) else Some t) = Some t'" for t t' k
  proof (cases k)
    case False
    with that show ?thesis by simp
  next
    case True
    with that(3) obtain u where u: "handle_each q (p_deferreds (heap t ! q)) t = Some u" "t' = ?clear u"
      by (auto split: option.splits)
    from handle_each_conf [OF that(2,1) confined_heap_ok(2) [OF that(1,2)] u(1)]
    have "confined p u" "grows t u" by simp_all
    with u(2) show ?thesis
      by (simp add: clear_deferreds_conf same_sizes_grows)
  qed
  from assms(3) obtain s1 where
    1: "(if p_deferredState (heap s ! q) = 1
         then (case handle_each q (p_deferreds (heap s ! q)) s of None \<Rightarrow> None
               | Some u \<Rightarrow> Some (?clear u)) else Some s) = Some s1"
    and 2: "(if p_deferredState (heap s1 ! q) = 2
         then (case handle_each q (p_deferreds (heap s1 ! q)) s1 of None \<Rightarrow> None
               | Some u \<Rightarrow> Some (?clear u)) else Some s1) = Some s'"
    by (auto simp: finale_def split: option.splits)
  from step [OF assms(1,2) 1] have a: "confined p s1" "grows s s1" by simp_all
  from a(2) assms(2) have "q < length (heap s1)" by (simp add: grows_def)
  from step [OF a(1) this 2] a(2) show ?thesis
    by (auto intro: grows_trans)
qed

lemma settle_conf:
  assumes "confined p s" "q < length (heap s)" "q \<noteq> p" "ok_in p s v"
    and "finale q (upd q (\<lambda>ob. ob\<lparr>p_state := k, p_value := v\<rparr>) s) = Some s'"
  shows "confined p s' \<and> grows s s'"
proof -
  let ?s1 = "upd q (\<lambda>ob. ob\<lparr>p_state := k, p_value := v\<rparr>) s"
  have "confined p ?s1"
    by (rule confined_upd [OF assms(1)])
       (use assms(3,4) confined_heap_ok [OF assms(1,2)] in auto)
  moreover have "q < length (heap ?s1)" using assms(2) by (simp add: upd_def)
  ultimately have "confined p s' \<and> grows ?s1 s'"
    using assms(5) by (rule finale_conf)
  then show ?thesis by (simp add: grows_def upd_def)
qed

lemma reject_conf:
  assumes "confined p s" "q < length (heap s)" "q \<noteq> p" "ok_in p s v" "reject q v s = Some s'"
  shows "confined p s' \<and> grows s s'"
  using assms unfolding reject_def by (rule settle_conf)

lemma Handler_ok:
  assumes "ok_in p s a" "ok_in p s b" "r \<noteq> p" "r < length (heap s)"
  shows "ok_handler_in p s (Handler a b r)"
  using assms
  by (cases a; cases b)
     (simp_all add: Handler_def ok_handler_in_def ok_handler_def ok_in_def ok_fn_in_def)

lemma then_method_conf:
  assumes "confined p s" "q < length (heap s)" "ok_in p s a" "ok_in p s b"
    and "then_method q a b s = Some (r, s')"
  shows "confined p s' \<and> grows s s' \<and> r < length (heap s')"
proof -
  let ?s1 = "s\<lparr>heap := heap s @ [fresh_promise]\<rparr>"
  note al = confined_alloc [OF assms(1)]
  from assms(5) have h: "handle q (Handler a b (length (heap s))) ?s1 = Some s'" and r: "r = length (heap s)"
    by (auto simp: then_method_def alloc_def split: option.splits)
  from assms(1) have "length (heap s) \<noteq> p" by (auto simp: confined_def)
  then have "ok_handler_in p ?s1 (Handler a b (length (heap s)))"
    using ok_in_grows(1) [OF al(2)] assms(3,4) by (intro Handler_ok) simp_all
  from handle_conf [OF al(1) _ this h] assms(2) have "confined p s'" "grows ?s1 s'"
    by simp_all
  with al(2) r show ?thesis
    by (auto intro: grows_trans simp: grows_def)
qed

lemma keeps_ret: "confined p s \<Longrightarrow> ok_res p s r \<Longrightarrow> keeps p s (Some (r, s))"
  by (simp add: keeps_def)

lemma keeps_val: "confined p s \<Longrightarrow> ok_in p s v \<Longrightarrow> keeps p s (Some (Inr v, s))"
  by (simp add: keeps_def ok_res_def)

lemma keeps_err: "confined p s \<Longrightarrow> ok_in p s e \<Longrightarrow> keeps p s (Some (Inl e, s))"
  by (simp add: keeps_def ok_res_def)

lemma keeps_None [simp]: "keeps p s None"
  by (simp add: keeps_def)

lemma keeps_from: "grows s s1 \<Longrightarrow> keeps p s1 m \<Longrightarrow> keeps p s m"
  by (auto simp: keeps_def split: option.splits intro: grows_trans)

lemma keepsD:
  assumes "keeps p s m" "m = Some (r, s')"
  shows "confined p s'" "grows s s'" "ok_res p s' r"
  using assms by (simp_all add: keeps_def)

lemma keeps_seq:
  assumes "keeps p s m"
    and "\<And>v s1. m = Some (Inr v, s1) \<Longrightarrow> confined p s1 \<Longrightarrow> grows s s1 \<Longrightarrow> ok_in p s1 v \<Longrightarrow>
           keeps p s1 (k v s1)"
  shows "keeps p s (seq m k)"
proof (cases m)
  case None
  then show ?thesis by (simp add: seq_def)
next
  case (Some x)
  obtain r s1 where x: "x = (r, s1)" by (cases x)
  note d = keepsD [OF assms(1) Some [unfolded x]]
  show ?thesis
  proof (cases r)
    case (Inl e)
    with Some x assms(1) show ?thesis by (simp add: seq_def)
  next
    case (Inr v)
    with d(3) have "ok_in p s1 v" by (simp add: ok_res_def)
    from assms(2) [OF Some [unfolded x Inr] d(1,2) this] d(2)
    have "keeps p s (k v s1)" by (auto intro: keeps_from)
    with Some x Inr show ?thesis by (simp add: seq_def)
  qed
qed

lemma keeps_ok:
  assumes "\<And>s'. m = Some s' \<Longrightarrow> confined p s' \<and> grows s s'"
  shows "keeps p s (ok m)"
  using assms by (cases m) (simp_all add: ok_def keeps_def ok_res_def)

lemma rec_keepsD:
  "rec_keeps p s0 rec \<Longrightarrow> confined p s \<Longrightarrow> grows s0 s \<Longrightarrow> ok_cmd p s c \<Longrightarrow> keeps p s (rec c s)"
  by (simp add: rec_keeps_def)

lemma ok_cmd_simps [simp]:
  "ok_cmd p s (Call f a b) = (ok_fn_in p s f \<and> ok_in p s a \<and> ok_in p s b)"
  "ok_cmd p s (Resolve q v) = (q \<noteq> p \<and> q < length (heap s) \<and> ok_in p s v)"
  "ok_cmd p s (DoResolve f q) = (q \<noteq> p \<and> q < length (heap s) \<and> ok_fn_in p s f)"
  "ok_cmd p s (NewPromise v) = ok_in p s v"
  "ok_cmd p s (PromiseResolve v) = ok_in p s v"
  "ok_cmd p s (ResAll c i v) = (c < length (all_ctxs s) \<and> ok_in p s v)"
  by (simp_all add: ok_cmd_def)

lemma not_a_function_ok [simp]: "ok_in p s not_a_function" "ok_in p s self_resolution_error"
  "ok_in p s constructor_error"
  by (simp_all add: not_a_function_def self_resolution_error_def constructor_error_def)

lemma apply_val_keeps:
  assumes "rec_keeps p s0 rec" "confined p s" "grows s0 s" "ok_in p s f" "ok_in p s v"
  shows "keeps p s (apply_val rec f v s)"
proof (cases f)
  case (VFun g)
  with assms(4,5) have "ok_cmd p s (Call g v VUndefined)" by simp
  from rec_keepsD [OF assms(1,2,3) this] VFun show ?thesis by (simp add: apply_val_def)
qed (use assms(2) in \<open>simp_all add: apply_val_def keeps_err\<close>)

lemma ok_call_grows:
  assumes "grows s s'"
    and "ok_call p (length (heap s)) (length (all_ctxs s)) (length (any_ctxs s)) c"
  shows "ok_call p (length (heap s')) (length (all_ctxs s')) (length (any_ctxs s')) c"
  using assms by (auto simp: grows_def intro: ok_mono)

lemma run_calls_keeps:
  assumes "rec_keeps p s0 rec"
  shows "confined p s \<Longrightarrow> grows s0 s \<Longrightarrow> ok_fn_in p s (Script cs t) \<Longrightarrow> ok_in p s a \<Longrightarrow> ok_in p s b \<Longrightarrow>
         keeps p s (run_calls rec cs t a b s)"
proof (induction cs arbitrary: s)
  case Nil
  then show ?case
    by (cases t) (simp_all add: keeps_val keeps_err ok_fn_in_def ok_in_def)
next
  case (Cons c cs)
  have tl: "ok_fn_in p s (Script cs t)"
    using Cons.prems(3) by (cases t) (simp_all add: ok_fn_in_def)
  have next_ok: "keeps p s1 (run_calls rec cs t a b s1)" if "confined p s1" "grows s s1" for s1
    using that Cons.prems(2,4,5) tl
    by (intro Cons.IH) (auto intro: grows_trans ok_in_grows)
  show ?case
  proof (cases c)
    case (Succeed v)
    with Cons.prems(3) have "ok_in p s v" by (cases t) (simp_all add: ok_fn_in_def ok_in_def)
    from apply_val_keeps [OF assms Cons.prems(1,2,4) this] next_ok Succeed show ?thesis
      by (simp add: keeps_seq)
  next
    case (Fail v)
    with Cons.prems(3) have "ok_in p s v" by (cases t) (simp_all add: ok_fn_in_def ok_in_def)
    from apply_val_keeps [OF assms Cons.prems(1,2,5) this] next_ok Fail show ?thesis
      by (simp add: keeps_seq)
  qed
qed

lemma read_then_ok:
  assumes "ok_in p s v"
  shows "read_then v = Inl e \<Longrightarrow> ok_in p s e" "read_then v = Inr t \<Longrightarrow> ok_in p s t"
  using assms
  by (cases v rule: read_then.cases; auto simp: ok_in_def)+

lemma keeps_reject:
  assumes "confined p s" "q < length (heap s)" "q \<noteq> p" "ok_in p s v"
  shows "keeps p s (ok (reject q v s))"
  by (rule keeps_ok) (rule reject_conf [OF assms])

lemma keeps_settle:
  assumes "confined p s" "q < length (heap s)" "q \<noteq> p" "ok_in p s v"
  shows "keeps p s (ok (finale q (upd q (\<lambda>ob. ob\<lparr>p_state := k, p_value := v\<rparr>) s)))"
  by (rule keeps_ok) (rule settle_conf [OF assms])

lemma bind_this_ok: "ok_fn_in p s f \<Longrightarrow> ok_in p s v \<Longrightarrow> ok_fn_in p s (bind_this f v)"
  by (cases f) (simp_all add: bind_this_def ok_fn_in_def ok_in_def)

lemma resolve_body_keeps:
  assumes "rec_keeps p s0 rec" "confined p s" "grows s0 s"
    and "q \<noteq> p" "q < length (heap s)" "ok_in p s v"
  shows "keeps p s (resolve_body rec q v s)"
proof -
  note rj = keeps_reject [OF assms(2,5,4)]
  note st = keeps_settle [OF assms(2,5,4,6)]
  show ?thesis
  proof (cases "getThen v")
    case (Inl e)
    with read_then_ok(1) [OF assms(6)] have "ok_in p s e" by (simp add: getThen_def)
    with Inl rj st show ?thesis by (simp add: resolve_body_def)
  next
    case (Inr t)
    with read_then_ok(2) [OF assms(6)] have t: "ok_in p s t" by (simp add: getThen_def)
    show ?thesis
    proof (cases t)
      case (VFun f)
      with t assms(4,5,6) have "ok_cmd p s (DoResolve (bind_this f v) q)"
        by (simp add: bind_this_ok)
      from rec_keepsD [OF assms(1,2,3) this] Inr VFun rj st show ?thesis
        by (simp add: resolve_body_def)
    qed (use Inr rj st in \<open>simp_all add: resolve_body_def\<close>)
  qed
qed

lemma doResolve_body_keeps:
  assumes "rec_keeps p s0 rec" "confined p s" "grows s0 s"
    and "q \<noteq> p" "q < length (heap s)" "ok_fn_in p s f"
  shows "keeps p s (doResolve_body rec f q s)"
proof -
  let ?l = "length (latches s)"
  let ?s1 = "s\<lparr>latches := latches s @ [False]\<rparr>"
  let ?m = "rec (Call f (VFun (ResolveFn ?l q)) (VFun (RejectFn ?l q))) ?s1"
  have g: "grows s ?s1" by (simp add: grows_def)
  have "keeps p ?s1 ?m"
    using assms(2-6) by (intro rec_keepsD [OF assms(1)]) (simp_all add: grows_def)
  then have k: "keeps p s ?m" by (rule keeps_from [OF g])
  show ?thesis
  proof (cases ?m)
    case None
    then show ?thesis by (simp add: doResolve_body_def Let_def)
  next
    case (Some x)
    obtain r s2 where x: "x = (r, s2)" by (cases x)
    note d = keepsD [OF k Some [unfolded x]]
    from d(2) assms(5) have q2: "q < length (heap s2)" by (simp add: grows_def)
    show ?thesis
    proof (cases r)
      case (Inr v)
      with Some x d show ?thesis by (simp add: doResolve_body_def keeps_def ok_res_def Let_def)
    next
      case (Inl ex)
      with d(3) have ex: "ok_in p s2 ex" by (simp add: ok_res_def)
      have "keeps p (s2\<lparr>latches := (latches s2)[?l := True]\<rparr>)
              (ok (reject q ex (s2\<lparr>latches := (latches s2)[?l := True]\<rparr>)))"
        using d(1) q2 assms(4) ex by (intro keeps_reject) simp_all
      then have "keeps p s (ok (reject q ex (s2\<lparr>latches := (latches s2)[?l := True]\<rparr>)))"
        using d(2) by (intro keeps_from [of s]) (simp_all add: grows_def)
      with Some x Inl d show ?thesis
        by (simp add: doResolve_body_def keeps_def ok_res_def Let_def)
    qed
  qed
qed

lemma new_Promise_body_keeps:
  assumes "rec_keeps p s0 rec" "confined p s" "grows s0 s" "ok_in p s f"
  shows "keeps p s (new_Promise_body rec f s)"
proof (cases f)
  case (VFun g)
  let ?s1 = "s\<lparr>heap := heap s @ [fresh_promise]\<rparr>"
  note al = confined_alloc [OF assms(2)]
  from assms(2) have ne: "length (heap s) \<noteq> p" by (auto simp: confined_def)
  have new_ok: "ok_in p t (VPromise (length (heap s)))" if "grows ?s1 t" for t
    using that by (simp add: grows_def)
  show ?thesis
  proof (cases "g = Noop")
    case True
    have "keeps p ?s1 (Some (Inr (VPromise (length (heap s))), ?s1))"
      by (rule keeps_val [OF al(1)]) simp
    from keeps_from [OF al(2) this] VFun True show ?thesis
      by (simp add: new_Promise_body_def alloc_def)
  next
    case False
    have "ok_cmd p ?s1 (DoResolve g (length (heap s)))"
      using ne assms(4) VFun ok_in_grows(2) [OF al(2)] by simp
    from rec_keepsD [OF assms(1) al(1) grows_trans [OF assms(3) al(2)] this]
    have "keeps p ?s1 (seq (rec (DoResolve g (length (heap s))) ?s1)
            (\<lambda>r s2. Some (Inr (VPromise (length (heap s))), s2)))"
      by (rule keeps_seq) (rule keeps_val, assumption, rule new_ok, assumption)
    from keeps_from [OF al(2) this] VFun False show ?thesis
      by (simp add: new_Promise_body_def alloc_def)
  qed
qed (use assms(2) in \<open>simp_all add: new_Promise_body_def keeps_err\<close>)

lemma ok_in_le:
  assumes "length (heap s) \<le> length (heap s')" "length (all_ctxs s) \<le> length (all_ctxs s')"
    "length (any_ctxs s) \<le> length (any_ctxs s')"
  shows "ok_in p s v \<Longrightarrow> ok_in p s' v" "ok_fn_in p s f \<Longrightarrow> ok_fn_in p s' f"
    "ok_handler_in p s d \<Longrightarrow> ok_handler_in p s' d"
  using assms
  by (auto simp: ok_in_def ok_fn_in_def ok_handler_in_def ok_handler_def
      split: option.splits intro: ok_mono)

lemma confined_ctxs:
  assumes "confined p s" "heap s' = heap s" "queue s' = queue s"
    and "length (all_ctxs s) \<le> length (all_ctxs s')" "length (any_ctxs s) \<le> length (any_ctxs s')"
    and "\<forall>ctx\<in>set (all_ctxs s'). ctx \<in> set (all_ctxs s) \<or>
           (ok_in p s' (all_resolve ctx) \<and> ok_in p s' (all_reject ctx) \<and>
            (\<forall>x\<in>set (all_args ctx). ok_in p s' x))"
    and "\<forall>ctx\<in>set (any_ctxs s'). ctx \<in> set (any_ctxs s) \<or>
           (ok_in p s' (any_resolve ctx) \<and> ok_in p s' (any_reject ctx) \<and>
            (\<forall>x\<in>set (any_rejectionReasons ctx). ok_in p s' x))"
  shows "confined p s'"
proof -
  have le: "length (heap s) \<le> length (heap s')" using assms(2) by simp
  note up = ok_in_le [OF le assms(4,5)]
  from assms(1) have c: "p < length (heap s)" "p_state (heap s ! p) = 0" "EMPTYSTRING < length (heap s)"
    "\<forall>ob\<in>set (heap s). ok_in p s (p_value ob) \<and> (\<forall>d\<in>set (p_deferreds ob). ok_handler_in p s d)"
    "\<forall>t\<in>set (queue s). fst t < length (heap s) \<and> fst t \<noteq> p \<and> ok_handler_in p s (snd t)"
    "\<forall>ctx\<in>set (all_ctxs s).
         ok_in p s (all_resolve ctx) \<and> ok_in p s (all_reject ctx) \<and>
         (\<forall>x\<in>set (all_args ctx). ok_in p s x)"
    "\<forall>ctx\<in>set (any_ctxs s).
         ok_in p s (any_resolve ctx) \<and> ok_in p s (any_reject ctx) \<and>
         (\<forall>x\<in>set (any_rejectionReasons ctx). ok_in p s x)"
    by (simp_all add: confined_def)
  have 1: "\<forall>ob\<in>set (heap s'). ok_in p s' (p_value ob) \<and> (\<forall>d\<in>set (p_deferreds ob). ok_handler_in p s' d)"
    using c(4) up(1,3) unfolding assms(2) by blast
  have 2: "\<forall>t\<in>set (queue s'). fst t < length (heap s') \<and> fst t \<noteq> p \<and> ok_handler_in p s' (snd t)"
    using c(5) up(3) unfolding assms(2,3) by blast
  have 3: "\<forall>ctx\<in>set (all_ctxs s').
         ok_in p s' (all_resolve ctx) \<and> ok_in p s' (all_reject ctx) \<and>
         (\<forall>x\<in>set (all_args ctx). ok_in p s' x)"
    using c(6) assms(6) up(1) by blast
  have 4: "\<forall>ctx\<in>set (any_ctxs s').
         ok_in p s' (any_resolve ctx) \<and> ok_in p s' (any_reject ctx) \<and>
         (\<forall>x\<in>set (any_rejectionReasons ctx). ok_in p s' x)"
    using c(7) assms(7) up(1) by blast
  from c(1,2,3) 1 2 3 4 show ?thesis
    unfolding confined_def assms(2) by blast
qed

lemma all_ctx_ok:
  assumes "confined p s" "c < length (all_ctxs s)"
  shows "ok_in p s (all_resolve (all_ctxs s ! c))" "ok_in p s (all_reject (all_ctxs s ! c))"
    "\<forall>x\<in>set (all_args (all_ctxs s ! c)). ok_in p s x"
  using assms nth_mem [of c "all_ctxs s"] by (auto simp: confined_def)

lemma any_ctx_ok:
  assumes "confined p s" "c < length (any_ctxs s)"
  shows "ok_in p s (any_resolve (any_ctxs s ! c))" "ok_in p s (any_reject (any_ctxs s ! c))"
    "\<forall>x\<in>set (any_rejectionReasons (any_ctxs s ! c)). ok_in p s x"
  using assms nth_mem [of c "any_ctxs s"] by (auto simp: confined_def)

lemma in_set_updateD: "x \<in> set (xs[i := y]) \<Longrightarrow> x = y \<or> x \<in> set xs"
  using set_update_subset_insert [of xs i y] by auto

lemma confined_all_upd:
  assumes "confined p s" "c < length (all_ctxs s)" "\<forall>x\<in>set args. ok_in p s x"
    and "length args = length (all_args (all_ctxs s ! c))"
  shows "confined p (s\<lparr>all_ctxs := (all_ctxs s)[c := (all_ctxs s ! c)\<lparr>all_args := args, all_remaining := k\<rparr>]\<rparr>)"
    (is "confined p ?s'")
    and "grows s (s\<lparr>all_ctxs := (all_ctxs s)[c := (all_ctxs s ! c)\<lparr>all_args := args, all_remaining := k\<rparr>]\<rparr>)"
proof -
  have same: "ok_in p ?s' = ok_in p s" by (rule ok_in_same) simp_all
  show "confined p ?s'"
  proof (rule confined_ctxs [OF assms(1)])
    show "\<forall>ctx\<in>set (all_ctxs ?s'). ctx \<in> set (all_ctxs s) \<or>
           (ok_in p ?s' (all_resolve ctx) \<and> ok_in p ?s' (all_reject ctx) \<and>
            (\<forall>x\<in>set (all_args ctx). ok_in p ?s' x))"
      unfolding same using all_ctx_ok(1,2) [OF assms(1,2)] assms(3)
      by (auto dest!: in_set_updateD)
  qed simp_all
  show "grows s ?s'" using assms(2,4) by (auto simp: grows_def nth_list_update)
qed

lemma confined_all_append:
  assumes "confined p s" "ok_in p s a" "ok_in p s b" "\<forall>x\<in>set xs. ok_in p s x"
  shows "confined p (s\<lparr>all_ctxs := all_ctxs s @ [\<lparr>all_args = xs, all_remaining = k, all_resolve = a, all_reject = b\<rparr>]\<rparr>)"
    (is "confined p ?s'")
    and "grows s (s\<lparr>all_ctxs := all_ctxs s @ [\<lparr>all_args = xs, all_remaining = k, all_resolve = a, all_reject = b\<rparr>]\<rparr>)"
proof -
  show g: "grows s ?s'" by (simp add: grows_def nth_append)
  show "confined p ?s'"
  proof (rule confined_ctxs [OF assms(1)])
    show "\<forall>ctx\<in>set (all_ctxs ?s'). ctx \<in> set (all_ctxs s) \<or>
           (ok_in p ?s' (all_resolve ctx) \<and> ok_in p ?s' (all_reject ctx) \<and>
            (\<forall>x\<in>set (all_args ctx). ok_in p ?s' x))"
      using assms(2,3,4) ok_in_grows(1) [OF g] by auto
  qed simp_all
qed

lemma confined_any_upd:
  assumes "confined p s" "c < length (any_ctxs s)" "\<forall>x\<in>set rs. ok_in p s x"
  shows "confined p (s\<lparr>any_ctxs := (any_ctxs s)[c := (any_ctxs s ! c)\<lparr>any_hasResolved := h, any_rejectionReasons := rs\<rparr>]\<rparr>)"
    (is "confined p ?s'")
    and "grows s (s\<lparr>any_ctxs := (any_ctxs s)[c := (any_ctxs s ! c)\<lparr>any_hasResolved := h, any_rejectionReasons := rs\<rparr>]\<rparr>)"
proof -
  have same: "ok_in p ?s' = ok_in p s" by (rule ok_in_same) simp_all
  show "confined p ?s'"
  proof (rule confined_ctxs [OF assms(1)])
    show "\<forall>ctx\<in>set (any_ctxs ?s'). ctx \<in> set (any_ctxs s) \<or>
           (ok_in p ?s' (any_resolve ctx) \<and> ok_in p ?s' (any_reject ctx) \<and>
            (\<forall>x\<in>set (any_rejectionReasons ctx). ok_in p ?s' x))"
      unfolding same using any_ctx_ok(1,2) [OF assms(1,2)] assms(3)
      by (auto dest!: in_set_updateD)
  qed simp_all
  show "grows s ?s'" by (simp add: grows_def)
qed

lemma confined_any_append:
  assumes "confined p s" "ok_in p s a" "ok_in p s b"
  shows "confined p (s\<lparr>any_ctxs := any_ctxs s @ [\<lparr>any_length = k, any_hasResolved = h, any_rejectionReasons = [], any_resolve = a, any_reject = b\<rparr>]\<rparr>)"
    (is "confined p ?s'")
    and "grows s (s\<lparr>any_ctxs := any_ctxs s @ [\<lparr>any_length = k, any_hasResolved = h, any_rejectionReasons = [], any_resolve = a, any_reject = b\<rparr>]\<rparr>)"
proof -
  show g: "grows s ?s'" by (simp add: grows_def)
  show "confined p ?s'"
  proof (rule confined_ctxs [OF assms(1)])
    show "\<forall>ctx\<in>set (any_ctxs ?s'). ctx \<in> set (any_ctxs s) \<or>
           (ok_in p ?s' (any_resolve ctx) \<and> ok_in p ?s' (any_reject ctx) \<and>
            (\<forall>x\<in>set (any_rejectionReasons ctx). ok_in p ?s' x))"
      using assms(2,3) ok_in_grows(1) [OF g] by auto
  qed simp_all
qed

lemma valuePromise_conf:
  assumes "confined p s" "ok_in p s v" "valuePromise v s = (q, s')"
  shows "confined p s' \<and> grows s s' \<and> q < length (heap s')"
proof -
  let ?s1 = "s\<lparr>heap := heap s @ [fresh_promise]\<rparr>"
  note al = confined_alloc [OF assms(1)]
  from assms(3) have q: "q = length (heap s)"
    and s': "s' = upd (length (heap s)) (\<lambda>ob. ob\<lparr>p_state := 1, p_value := v\<rparr>) ?s1"
    by (auto simp: valuePromise_def alloc_def)
  from assms(1) have ne: "length (heap s) \<noteq> p" by (auto simp: confined_def)
  have "confined p (upd (length (heap s)) (\<lambda>ob. ob\<lparr>p_state := 1, p_value := v\<rparr>) ?s1)"
    by (rule confined_upd [OF al(1)]) (use ne ok_in_grows(1) [OF al(2) assms(2)] in simp_all)
  with al(2) q s' show ?thesis
    by (simp add: grows_def upd_def)
qed

lemma valuePromise_keeps:
  assumes "confined p s" "ok_in p s v"
  shows "keeps p s (case valuePromise v s of (q, s') \<Rightarrow> Some (Inr (VPromise q), s'))"
proof -
  obtain q s' where e: "valuePromise v s = (q, s')" by (cases "valuePromise v s")
  from valuePromise_conf [OF assms e] e show ?thesis
    by (simp add: keeps_def ok_res_def)
qed

lemma then_val_keeps:
  assumes "confined p s" "ok_in p s q" "ok_in p s a" "ok_in p s b"
  shows "keeps p s (then_val q a b s)"
proof (cases q)
  case (VPromise q')
  with assms(2) have q': "q' < length (heap s)" by simp
  show ?thesis
  proof (cases "then_method q' a b s")
    case None
    with VPromise show ?thesis by (simp add: then_val_def)
  next
    case (Some x)
    obtain r s' where x: "x = (r, s')" by (cases x)
    from then_method_conf [OF assms(1) q' assms(3,4) Some [unfolded x]] Some x VPromise
    show ?thesis by (simp add: then_val_def keeps_def ok_res_def)
  qed
qed (use assms(1) in \<open>simp_all add: then_val_def keeps_err\<close>)

lemma Promise_resolve_body_keeps:
  assumes "rec_keeps p s0 rec" "confined p s" "grows s0 s" "ok_in p s v"
  shows "keeps p s (Promise_resolve_body rec v s)"
proof -
  from assms(2) have six: "EMPTYSTRING < length (heap s)" by (simp add: confined_def)
  have cached: "keeps p s (Some (Inr (VPromise k), s))" if "k \<le> EMPTYSTRING" for k
    using that six by (intro keeps_val [OF assms(2)]) simp
  note vp = valuePromise_keeps [OF assms(2,4)]
  have np: "keeps p s (rec (NewPromise f) s)" if "ok_in p s f" for f
    using that by (intro rec_keepsD [OF assms(1,2,3)]) simp
  have thr: "keeps p s (rec (NewPromise (VFun (Script [Fail ex] None))) s)" if "read_then v = Inl ex" for ex
    using read_then_ok(1) [OF assms(4) that] by (intro np) (simp add: ok_fn_in_def ok_in_def)
  have thn: "keeps p s (rec (NewPromise (VFun (bind_this f v))) s)" if "read_then v = Inr (VFun f)" for f
    using read_then_ok(2) [OF assms(4) that] assms(4) by (intro np) (simp add: bind_this_ok)
  have obj: "keeps p s (case read_then v of
               Inl ex \<Rightarrow> rec (NewPromise (VFun (Script [Fail ex] None))) s
             | Inr (VFun f) \<Rightarrow> rec (NewPromise (VFun (bind_this f v))) s
             | Inr _ \<Rightarrow> (case valuePromise v s of (p, s') \<Rightarrow> Some (Inr (VPromise p), s')))"
    using thr thn vp by (auto split: sum.splits val.splits)
  have c: "keeps p s (Some (Inr (VPromise TRUE), s))" "keeps p s (Some (Inr (VPromise FALSE), s))"
    "keeps p s (Some (Inr (VPromise NULL), s))" "keeps p s (Some (Inr (VPromise UNDEFINED), s))"
    "keeps p s (Some (Inr (VPromise ZERO), s))" "keeps p s (Some (Inr (VPromise EMPTYSTRING), s))"
    by (rule cached, simp add: TRUE_def FALSE_def NULL_def UNDEFINED_def ZERO_def EMPTYSTRING_def)+
  have self: "keeps p s (Some (Inr v, s))" by (rule keeps_val [OF assms(2,4)])
  show ?thesis
    unfolding Promise_resolve_body_def
    using c self obj vp by (cases v) simp_all
qed

lemma keeps_if: "keeps p s a \<Longrightarrow> keeps p s b \<Longrightarrow> keeps p s (if c then a else b)"
  by simp

lemma res_store_keeps:
  assumes "rec_keeps p s0 rec" "confined p s" "grows s0 s" "c < length (all_ctxs s)" "ok_in p s v"
  shows "keeps p s (res_store rec c i v s)"
proof -
  let ?ctx = "all_ctxs s ! c"
  let ?args = "(all_args ?ctx)[i := v]"
  let ?s1 = "s\<lparr>all_ctxs := (all_ctxs s)[c := ?ctx\<lparr>all_args := ?args, all_remaining := all_remaining ?ctx - 1\<rparr>]\<rparr>"
  note old = all_ctx_ok [OF assms(2,4)]
  have args: "\<forall>x\<in>set ?args. ok_in p s x"
    using old(3) assms(5) by (auto dest!: in_set_updateD)
  have c1: "confined p ?s1" and g1: "grows s ?s1"
    by (rule confined_all_upd [OF assms(2,4) args], simp)+
  have "keeps p ?s1 (apply_val rec (all_resolve ?ctx) (VArr ?args) ?s1)"
    using old(1) args ok_in_grows(1) [OF g1]
    by (intro apply_val_keeps [OF assms(1) c1 grows_trans [OF assms(3) g1]]) simp_all
  then have a: "keeps p s (apply_val rec (all_resolve ?ctx) (VArr ?args) ?s1)"
    by (rule keeps_from [OF g1])
  have "keeps p ?s1 (Some (Inr VUndefined, ?s1))"
    by (rule keeps_val [OF c1]) simp
  then have b: "keeps p s (Some (Inr VUndefined, ?s1))"
    by (rule keeps_from [OF g1])
  show ?thesis
    unfolding res_store_def Let_def by (rule keeps_if [OF a b])
qed

lemma then_all_keeps:
  assumes "confined p s" "c < length (all_ctxs s)" "ok_in p s q"
  shows "keeps p s (seq (then_val q (VFun (AllRes c i)) (all_reject (all_ctxs s ! c)) s)
                      (\<lambda>r s2. Some (Inr VUndefined, s2)))"
proof (rule keeps_seq)
  show "keeps p s (then_val q (VFun (AllRes c i)) (all_reject (all_ctxs s ! c)) s)"
    using assms(2) all_ctx_ok(2) [OF assms(1,2)]
    by (intro then_val_keeps [OF assms(1,3)]) (simp_all add: ok_fn_in_def)
qed (simp add: keeps_val)

lemma res_body_keeps:
  assumes "rec_keeps p s0 rec" "confined p s" "grows s0 s" "c < length (all_ctxs s)" "ok_in p s v"
  shows "keeps p s (res_body rec c i v s)"
proof -
  note st = res_store_keeps [OF assms]
  show ?thesis
  proof (cases "is_objfun v")
    case False
    with st show ?thesis by (simp add: res_body_def)
  next
    case obj: True
    show ?thesis
    proof (cases "\<exists>q0. v = VPromise q0")
      case True
      then obtain q0 where v: "v = VPromise q0" by blast
      with assms(5) have q0: "q0 < length (heap s)" by simp
      show ?thesis
      proof (cases "deref (length (heap s)) (heap s) q0")
        case None
        with v show ?thesis by (simp add: res_body_def)
      next
        case (Some q)
        from deref_ok [OF assms(2) q0 Some] have q: "q < length (heap s)" by simp
        note val = confined_heap_ok(1) [OF assms(2) q]
        have 1: "keeps p s (rec (ResAll c i (p_value (heap s ! q))) s)"
          using assms(4) val by (intro rec_keepsD [OF assms(1,2,3)]) simp
        have first: "keeps p s (if p_state (heap s ! q) = 2
                         then apply_val rec (all_reject (all_ctxs s ! c)) (p_value (heap s ! q)) s
                         else Some (Inr VUndefined, s))"
          using apply_val_keeps [OF assms(1,2,3) all_ctx_ok(2) [OF assms(2,4)] val]
            keeps_val [OF assms(2), of VUndefined]
          by simp
        have 2: "keeps p s (seq (if p_state (heap s ! q) = 2
                         then apply_val rec (all_reject (all_ctxs s ! c)) (p_value (heap s ! q)) s
                         else Some (Inr VUndefined, s))
                      (\<lambda>r s1.
                         seq (then_val (VPromise q) (VFun (AllRes c i)) (all_reject (all_ctxs s1 ! c)) s1)
                           (\<lambda>r s2. Some (Inr VUndefined, s2))))"
        proof (rule keeps_seq [OF first])
          fix w s1
          assume c1: "confined p s1" and g1: "grows s s1"
          from g1 assms(4) q have "c < length (all_ctxs s1)" "ok_in p s1 (VPromise q)"
            by (simp_all add: grows_def)
          then show "keeps p s1 (seq (then_val (VPromise q) (VFun (AllRes c i)) (all_reject (all_ctxs s1 ! c)) s1)
                           (\<lambda>r s2. Some (Inr VUndefined, s2)))"
            by (rule then_all_keeps [OF c1])
        qed
        from 1 2 v Some show ?thesis
          by (simp add: res_body_def)
      qed
    next
      case False
      have other: "res_body rec c i v s =
             (case read_then v of
                Inl e \<Rightarrow> Some (Inl e, s)
              | Inr (VFun f) \<Rightarrow>
                  seq (rec (NewPromise (VFun (bind_this f v))) s)
                    (\<lambda>p s1.
                       seq (then_val p (VFun (AllRes c i)) (all_reject (all_ctxs s1 ! c)) s1)
                         (\<lambda>r s2. Some (Inr VUndefined, s2)))
              | Inr _ \<Rightarrow> res_store rec c i v s)"
        using obj False by (cases v) (auto simp: res_body_def)
      show ?thesis
      proof (cases "read_then v")
        case (Inl e)
        with read_then_ok(1) [OF assms(5)] other assms(2) show ?thesis
          by (simp add: keeps_err)
      next
        case (Inr t)
        note t = read_then_ok(2) [OF assms(5) Inr]
        show ?thesis
        proof (cases t)
          case (VFun f)
          have "keeps p s (seq (rec (NewPromise (VFun (bind_this f v))) s)
                    (\<lambda>p s1.
                       seq (then_val p (VFun (AllRes c i)) (all_reject (all_ctxs s1 ! c)) s1)
                         (\<lambda>r s2. Some (Inr VUndefined, s2))))"
          proof (rule keeps_seq)
            show "keeps p s (rec (NewPromise (VFun (bind_this f v))) s)"
              using t VFun assms(5) by (intro rec_keepsD [OF assms(1,2,3)]) (simp add: bind_this_ok)
          next
            fix w s1
            assume c1: "confined p s1" and g1: "grows s s1" and w: "ok_in p s1 w"
            from g1 assms(4) have "c < length (all_ctxs s1)" by (simp add: grows_def)
            from then_all_keeps [OF c1 this w]
            show "keeps p s1 (seq (then_val w (VFun (AllRes c i)) (all_reject (all_ctxs s1 ! c)) s1)
                         (\<lambda>r s2. Some (Inr VUndefined, s2)))" .
          qed
          with other Inr VFun show ?thesis by simp
        qed (use other Inr st in simp_all)
      qed
    qed
  qed
qed

lemma all_loop_keeps:
  assumes "rec_keeps p s0 rec"
  shows "confined p s \<Longrightarrow> grows s0 s \<Longrightarrow> c < length (all_ctxs s) \<Longrightarrow>
         \<forall>i\<in>set js. i < length (all_args (all_ctxs s ! c)) \<Longrightarrow>
         keeps p s (all_loop rec c js s)"
proof (induction js arbitrary: s)
  case Nil
  then show ?case by (simp add: keeps_val)
next
  case (Cons i js)
  from Cons.prems(4) have "all_args (all_ctxs s ! c) ! i \<in> set (all_args (all_ctxs s ! c))"
    by simp
  with all_ctx_ok(3) [OF Cons.prems(1,3)] have "ok_in p s (all_args (all_ctxs s ! c) ! i)"
    by blast
  with Cons.prems(3) have "ok_cmd p s (ResAll c i (all_args (all_ctxs s ! c) ! i))" by simp
  note hd = rec_keepsD [OF assms Cons.prems(1,2) this]
  have "keeps p s (seq (rec (ResAll c i (all_args (all_ctxs s ! c) ! i)) s) (\<lambda>r s'. all_loop rec c js s'))"
  proof (rule keeps_seq [OF hd])
    fix w s1
    assume c1: "confined p s1" and g1: "grows s s1"
    from g1 Cons.prems(3) have c': "c < length (all_ctxs s1)"
      and len: "length (all_args (all_ctxs s1 ! c)) = length (all_args (all_ctxs s ! c))"
      by (simp_all add: grows_def)
    from Cons.prems(4) len have "\<forall>i\<in>set js. i < length (all_args (all_ctxs s1 ! c))" by simp
    from Cons.IH [OF c1 grows_trans [OF Cons.prems(2) g1] c' this]
    show "keeps p s1 (all_loop rec c js s1)" .
  qed
  then show ?case by simp
qed

lemma race_each_keeps:
  assumes "rec_keeps p s0 rec"
  shows "confined p s \<Longrightarrow> grows s0 s \<Longrightarrow> \<forall>v\<in>set vs. ok_in p s v \<Longrightarrow> ok_in p s a \<Longrightarrow> ok_in p s b \<Longrightarrow>
         keeps p s (race_each rec vs a b s)"
proof (induction vs arbitrary: s)
  case Nil
  then show ?case by (simp add: keeps_val)
next
  case (Cons v vs)
  from Cons.prems(3) have "ok_cmd p s (PromiseResolve v)" by simp
  note hd = rec_keepsD [OF assms Cons.prems(1,2) this]
  have "keeps p s (seq (rec (PromiseResolve v) s)
       (\<lambda>q s1. seq (then_val q a b s1) (\<lambda>r s2. race_each rec vs a b s2)))"
  proof (rule keeps_seq [OF hd])
    fix q s1
    assume c1: "confined p s1" and g1: "grows s s1" and q: "ok_in p s1 q"
    note up = ok_in_grows(1) [OF g1]
    show "keeps p s1 (seq (then_val q a b s1) (\<lambda>r s2. race_each rec vs a b s2))"
    proof (rule keeps_seq)
      show "keeps p s1 (then_val q a b s1)"
        using Cons.prems(4,5) up by (intro then_val_keeps [OF c1 q]) simp_all
    next
      fix r s2
      assume c2: "confined p s2" and g2: "grows s1 s2"
      note g = grows_trans [OF g1 g2]
      note up2 = ok_in_grows(1) [OF g]
      from Cons.prems(3) up2 have "\<forall>v\<in>set vs. ok_in p s2 v" by simp
      from Cons.IH [OF c2 grows_trans [OF Cons.prems(2) g] this up2 [OF Cons.prems(4)] up2 [OF Cons.prems(5)]]
      show "keeps p s2 (race_each rec vs a b s2)" .
    qed
  qed
  then show ?case by simp
qed

lemma ok_fn_in_more [simp]:
  "ok_fn_in p s Noop" "ok_fn_in p s ProtoThen" "ok_fn_in p s (UserFn h)"
  "ok_fn_in p s OnSettledFulfill" "ok_fn_in p s OnSettledReject"
  "ok_fn_in p s (AllExec xs) = (\<forall>x\<in>set xs. ok_in p s x)"
  "ok_fn_in p s (RaceExec xs) = (\<forall>x\<in>set xs. ok_in p s x)"
  "ok_fn_in p s (AnyExec xs) = (\<forall>x\<in>set xs. ok_in p s x)"
  "ok_fn_in p s (AllRes c i) = (c < length (all_ctxs s))"
  "ok_fn_in p s (ResolveOnce c) = (c < length (any_ctxs s))"
  "ok_fn_in p s (RejectionCheck c) = (c < length (any_ctxs s))"
  by (simp_all add: ok_fn_in_def ok_in_def)

lemma env_okD:
  assumes "env_ok p s0 E" "grows s0 s" "ok_in p s a"
  shows "ok_res p s (E h a)"
proof -
  let ?nh = "length (heap s)" and ?na = "length (all_ctxs s)" and ?nb = "length (any_ctxs s)"
  from assms(2) have "length (heap s0) \<le> ?nh" "length (all_ctxs s0) \<le> ?na" "length (any_ctxs s0) \<le> ?nb"
    by (simp_all add: grows_def)
  moreover from assms(3) have "ok_val p ?nh ?na ?nb a" by (simp add: ok_in_def)
  ultimately have "case E h a of Inl e \<Rightarrow> ok_val p ?nh ?na ?nb e | Inr v \<Rightarrow> ok_val p ?nh ?na ?nb v"
    using assms(1) unfolding env_ok_def by blast
  then show ?thesis by (simp add: ok_res_def ok_in_def split: sum.splits)
qed

lemma confined_any_set:
  assumes "confined p s" "c < length (any_ctxs s)"
    and "any_resolve ctx' = any_resolve (any_ctxs s ! c)" "any_reject ctx' = any_reject (any_ctxs s ! c)"
    and "\<forall>x\<in>set (any_rejectionReasons ctx'). ok_in p s x"
  shows "confined p (s\<lparr>any_ctxs := (any_ctxs s)[c := ctx']\<rparr>)" (is "confined p ?s'")
    and "grows s (s\<lparr>any_ctxs := (any_ctxs s)[c := ctx']\<rparr>)"
proof -
  have same: "ok_in p ?s' = ok_in p s" by (rule ok_in_same) simp_all
  show "confined p ?s'"
  proof (rule confined_ctxs [OF assms(1)])
    show "\<forall>ctx\<in>set (any_ctxs ?s'). ctx \<in> set (any_ctxs s) \<or>
           (ok_in p ?s' (any_resolve ctx) \<and> ok_in p ?s' (any_reject ctx) \<and>
            (\<forall>x\<in>set (any_rejectionReasons ctx). ok_in p ?s' x))"
      unfolding same using any_ctx_ok(1,2) [OF assms(1,2)] assms(3,4,5)
      by (auto dest!: in_set_updateD)
  qed simp_all
  show "grows s ?s'" by (simp add: grows_def)
qed

lemma keeps_seq_unit:
  assumes "keeps p s m"
  shows "keeps p s (seq m (\<lambda>r s'. Some (Inr VUndefined, s')))"
  by (rule keeps_seq [OF assms]) (simp add: keeps_val)

lemma latch_grows [simp]: "grows s (s\<lparr>latches := la\<rparr>)" "grows s (s\<lparr>queue := qu\<rparr>)"
  by (simp_all add: grows_def)

lemma call_ResolveFn_keeps:
  assumes "rec_keeps p s0 rec" "confined p s" "grows s0 s" "ok_fn_in p s (ResolveFn l q)" "ok_in p s a"
  shows "keeps p s (call_body E rec (ResolveFn l q) a b s)"
proof -
  let ?s1 = "s\<lparr>latches := (latches s)[l := True]\<rparr>"
  have "keeps p ?s1 (rec (Resolve q a) ?s1)"
    using assms(2-5) by (intro rec_keepsD [OF assms(1)]) (simp_all add: grows_def)
  then have "keeps p s (rec (Resolve q a) ?s1)"
    by (rule keeps_from [OF latch_grows(1)])
  with assms(2) show ?thesis by (simp add: call_body_def keeps_val)
qed

lemma call_RejectFn_keeps:
  assumes "confined p s" "ok_fn_in p s (RejectFn l q)" "ok_in p s a"
  shows "keeps p s (call_body E rec (RejectFn l q) a b s)"
proof -
  let ?s1 = "s\<lparr>latches := (latches s)[l := True]\<rparr>"
  have "keeps p ?s1 (ok (reject q a ?s1))"
    using assms by (intro keeps_reject) simp_all
  then have "keeps p s (ok (reject q a ?s1))"
    by (rule keeps_from [OF latch_grows(1)])
  with assms(1) show ?thesis by (simp add: call_body_def keeps_val)
qed

lemma call_AllExec_keeps:
  assumes "rec_keeps p s0 rec" "confined p s" "grows s0 s" "ok_fn_in p s (AllExec xs)"
    "ok_in p s a" "ok_in p s b"
  shows "keeps p s (call_body E rec (AllExec xs) a b s)"
proof (cases "length xs = 0")
  case True
  have "keeps p s (apply_val rec a (VArr []) s)"
    by (rule apply_val_keeps [OF assms(1,2,3,5)]) simp
  with True show ?thesis by (simp add: call_body_def)
next
  case False
  let ?s1 = "s\<lparr>all_ctxs := all_ctxs s @
                   [\<lparr> all_args = xs, all_remaining = int (length xs),
                      all_resolve = a, all_reject = b \<rparr>]\<rparr>"
  from assms(4) have xs: "\<forall>x\<in>set xs. ok_in p s x" by simp
  note ap = confined_all_append [OF assms(2,5,6) xs, of "int (length xs)"]
  have "keeps p ?s1 (all_loop rec (length (all_ctxs s)) [0..<length xs] ?s1)"
    by (rule all_loop_keeps [OF assms(1) ap(1) grows_trans [OF assms(3) ap(2)]]) simp_all
  then have "keeps p s (all_loop rec (length (all_ctxs s)) [0..<length xs] ?s1)"
    by (rule keeps_from [OF ap(2)])
  with False show ?thesis by (simp add: call_body_def)
qed

lemma call_AnyExec_keeps:
  assumes "rec_keeps p s0 rec" "confined p s" "grows s0 s" "ok_fn_in p s (AnyExec xs)"
    "ok_in p s a" "ok_in p s b"
  shows "keeps p s (call_body E rec (AnyExec xs) a b s)"
proof -
  let ?c = "length (any_ctxs s)"
  let ?s1 = "s\<lparr>any_ctxs := any_ctxs s @
                      [\<lparr> any_length = length xs, any_hasResolved = False,
                         any_rejectionReasons = [], any_resolve = a, any_reject = b \<rparr>]\<rparr>"
  note ap = confined_any_append [OF assms(2,5,6), of "length xs" False]
  note up = ok_in_grows(1) [OF ap(2)]
  note g = grows_trans [OF assms(3) ap(2)]
  from assms(4) up have xs: "\<forall>x\<in>set xs. ok_in p ?s1 x" by simp
  have "keeps p ?s1 (apply_val rec b (getAggregateError []) ?s1)"
    by (rule apply_val_keeps [OF assms(1) ap(1) g up [OF assms(6)]]) (simp add: getAggregateError_def)
  then have "keeps p ?s1 (seq (apply_val rec b (getAggregateError []) ?s1) (\<lambda>r s'. Some (Inr VUndefined, s')))"
    by (rule keeps_seq_unit)
  then have 1: "keeps p s (seq (apply_val rec b (getAggregateError []) ?s1) (\<lambda>r s'. Some (Inr VUndefined, s')))"
    by (rule keeps_from [OF ap(2)])
  have "keeps p ?s1 (race_each rec xs (VFun (ResolveOnce ?c)) (VFun (RejectionCheck ?c)) ?s1)"
    by (rule race_each_keeps [OF assms(1) ap(1) g xs]) simp_all
  then have 2: "keeps p s (race_each rec xs (VFun (ResolveOnce ?c)) (VFun (RejectionCheck ?c)) ?s1)"
    by (rule keeps_from [OF ap(2)])
  show ?thesis
    unfolding call_body_def fn.case Let_def by (rule keeps_if [OF 1 2])
qed

lemma call_ResolveOnce_keeps:
  assumes "rec_keeps p s0 rec" "confined p s" "grows s0 s" "ok_fn_in p s (ResolveOnce c)" "ok_in p s a"
  shows "keeps p s (call_body E rec (ResolveOnce c) a b s)"
proof -
  let ?ctx = "any_ctxs s ! c"
  let ?s1 = "s\<lparr>any_ctxs := (any_ctxs s)[c := ?ctx\<lparr>any_hasResolved := True\<rparr>]\<rparr>"
  from assms(4) have c: "c < length (any_ctxs s)" by simp
  note old = any_ctx_ok [OF assms(2) c]
  have c1: "confined p ?s1" and g1: "grows s ?s1"
    using old(3) by (intro confined_any_set [OF assms(2) c]; simp)+
  note up = ok_in_grows(1) [OF g1]
  have "keeps p ?s1 (apply_val rec (any_resolve ?ctx) a ?s1)"
    by (rule apply_val_keeps [OF assms(1) c1 grows_trans [OF assms(3) g1] up [OF old(1)] up [OF assms(5)]])
  then have "keeps p ?s1 (seq (apply_val rec (any_resolve ?ctx) a ?s1) (\<lambda>r s'. Some (Inr VUndefined, s')))"
    by (rule keeps_seq_unit)
  then have 1: "keeps p s (seq (apply_val rec (any_resolve ?ctx) a ?s1) (\<lambda>r s'. Some (Inr VUndefined, s')))"
    by (rule keeps_from [OF g1])
  have 2: "keeps p s (Some (Inr VUndefined, s))"
    by (rule keeps_val [OF assms(2)]) simp
  show ?thesis
    unfolding call_body_def fn.case by (rule keeps_if [OF 1 2])
qed

lemma call_RejectionCheck_keeps:
  assumes "rec_keeps p s0 rec" "confined p s" "grows s0 s" "ok_fn_in p s (RejectionCheck c)" "ok_in p s a"
  shows "keeps p s (call_body E rec (RejectionCheck c) a b s)"
proof -
  let ?ctx = "any_ctxs s ! c"
  let ?rs = "any_rejectionReasons ?ctx @ [a]"
  let ?s1 = "s\<lparr>any_ctxs := (any_ctxs s)[c := ?ctx\<lparr>any_rejectionReasons := ?rs\<rparr>]\<rparr>"
  from assms(4) have c: "c < length (any_ctxs s)" by simp
  note old = any_ctx_ok [OF assms(2) c]
  from old(3) assms(5) have rs: "\<forall>x\<in>set ?rs. ok_in p s x" by simp
  have c1: "confined p ?s1" and g1: "grows s ?s1"
    using rs by (intro confined_any_set [OF assms(2) c]; simp)+
  note up = ok_in_grows(1) [OF g1]
  have "ok_in p ?s1 (getAggregateError ?rs)"
    using rs up by (simp add: getAggregateError_def)
  with up [OF old(2)]
  have "keeps p ?s1 (apply_val rec (any_reject ?ctx) (getAggregateError ?rs) ?s1)"
    by (intro apply_val_keeps [OF assms(1) c1 grows_trans [OF assms(3) g1]])
  then have "keeps p ?s1 (seq (apply_val rec (any_reject ?ctx) (getAggregateError ?rs) ?s1)
                            (\<lambda>r s'. Some (Inr VUndefined, s')))"
    by (rule keeps_seq_unit)
  then have 1: "keeps p s (seq (apply_val rec (any_reject ?ctx) (getAggregateError ?rs) ?s1)
                            (\<lambda>r s'. Some (Inr VUndefined, s')))"
    by (rule keeps_from [OF g1])
  have "keeps p ?s1 (Some (Inr VUndefined, ?s1))"
    by (rule keeps_val [OF c1]) simp
  then have 2: "keeps p s (Some (Inr VUndefined, ?s1))"
    by (rule keeps_from [OF g1])
  show ?thesis
    unfolding call_body_def fn.case Let_def by (rule keeps_if [OF 1 2])
qed

lemma call_body_keeps:
  assumes "rec_keeps p s0 rec" "env_ok p s0 E" "confined p s" "grows s0 s"
    and "ok_fn_in p s f" "ok_in p s a" "ok_in p s b"
  shows "keeps p s (call_body E rec f a b s)"
proof (cases f)
  case Noop
  with assms(3) show ?thesis by (simp add: call_body_def keeps_val)
next
  case ProtoThen
  with assms(3) show ?thesis by (simp add: call_body_def keeps_err)
next
  case (BoundThen obj)
  with assms(5) have "ok_in p s obj" by (simp add: ok_fn_in_def ok_in_def)
  from then_val_keeps [OF assms(3) this assms(6,7)] assms(3) BoundThen show ?thesis
    by (cases obj) (simp_all add: call_body_def keeps_err keeps_val ok_in_def)
next
  case (ResolveFn l q)
  with call_ResolveFn_keeps [OF assms(1,3,4) _ assms(6)] assms(5) show ?thesis by simp
next
  case (RejectFn l q)
  with call_RejectFn_keeps [OF assms(3) _ assms(6)] assms(5) show ?thesis by simp
next
  case (UserFn h)
  from env_okD [OF assms(2,4,6)] assms(3) UserFn show ?thesis
    by (simp add: call_body_def keeps_ret)
next
  case (Script cs t)
  with run_calls_keeps [OF assms(1,3,4) _ assms(6,7)] assms(5) show ?thesis
    by (simp add: call_body_def)
next
  case (AllExec xs)
  with call_AllExec_keeps [OF assms(1,3,4) _ assms(6,7)] assms(5) show ?thesis by simp
next
  case (AllRes c i)
  with assms(5,6) have "ok_cmd p s (ResAll c i a)" by simp
  from keeps_seq_unit [OF rec_keepsD [OF assms(1,3,4) this]] AllRes show ?thesis
    by (simp add: call_body_def)
next
  case OnSettledFulfill
  with assms(3,6) show ?thesis by (simp add: call_body_def keeps_val)
next
  case OnSettledReject
  with assms(3,6) show ?thesis by (simp add: call_body_def keeps_val)
next
  case (RaceExec xs)
  with assms(5) have "\<forall>x\<in>set xs. ok_in p s x" by simp
  from race_each_keeps [OF assms(1,3,4) this assms(6,7)] RaceExec show ?thesis
    by (simp add: call_body_def)
next
  case (AnyExec xs)
  with call_AnyExec_keeps [OF assms(1,3,4) _ assms(6,7)] assms(5) show ?thesis by simp
next
  case (ResolveOnce c)
  with call_ResolveOnce_keeps [OF assms(1,3,4) _ assms(6)] assms(5) show ?thesis by simp
next
  case (RejectionCheck c)
  with call_RejectionCheck_keeps [OF assms(1,3,4) _ assms(6)] assms(5) show ?thesis by simp
qed

lemma cmd_body_keeps:
  assumes "rec_keeps p s0 rec" "env_ok p s0 E" "confined p s" "grows s0 s" "ok_cmd p s c"
  shows "keeps p s (cmd_body E rec c s)"
proof (cases c)
  case (Call f a b)
  with assms(5) call_body_keeps [OF assms(1,2,3,4), of f a b] show ?thesis
    by (simp add: cmd_body_def)
next
  case (Resolve q v)
  with assms(5) resolve_body_keeps [OF assms(1,3,4), of q v] show ?thesis
    by (simp add: cmd_body_def)
next
  case (DoResolve f q)
  with assms(5) doResolve_body_keeps [OF assms(1,3,4), of q f] show ?thesis
    by (simp add: cmd_body_def)
next
  case (NewPromise f)
  with assms(5) new_Promise_body_keeps [OF assms(1,3,4), of f] show ?thesis
    by (simp add: cmd_body_def)
next
  case (PromiseResolve v)
  with assms(5) Promise_resolve_body_keeps [OF assms(1,3,4), of v] show ?thesis
    by (simp add: cmd_body_def)
next
  case (ResAll k i v)
  with assms(5) res_body_keeps [OF assms(1,3,4), of k v i] show ?thesis
    by (simp add: cmd_body_def)
qed

lemma exec_keeps:
  assumes "env_ok p s0 E"
  shows "rec_keeps p s0 (exec E n)"
proof (induction n)
  case 0
  show ?case by (simp add: rec_keeps_def)
next
  case (Suc n)
  show ?case
    unfolding rec_keeps_def exec.simps
    using cmd_body_keeps [OF Suc assms] by blast
qed

lemma handler_fns_ok:
  assumes "ok_handler_in p s d"
  shows "promise d \<noteq> p" "promise d < length (heap s)"
    "onFulfilled d = Some f \<Longrightarrow> ok_fn_in p s f" "onRejected d = Some f \<Longrightarrow> ok_fn_in p s f"
  using assms by (simp_all add: ok_handler_in_def ok_handler_def ok_fn_in_def)

lemma run_task_keeps:
  assumes "env_ok p s0 E" "confined p s" "grows s0 s"
    and "fst t < length (heap s)" "fst t \<noteq> p" "ok_handler_in p s (snd t)"
  shows "keeps p s (run_task E n t s)"
proof -
  obtain self d where t: "t = (self, d)" by (cases t)
  with assms(4,6) have self: "self < length (heap s)" and d: "ok_handler_in p s d" by simp_all
  note h = handler_fns_ok [OF d]
  note val = confined_heap_ok(1) [OF assms(2) self]
  note R = exec_keeps [OF assms(1), of n]
  let ?v = "p_value (heap s ! self)"
  have rj: "keeps p s (ok (reject (promise d) ?v s))"
    by (rule keeps_reject [OF assms(2) h(2,1) val])
  have rs: "keeps p s (resolve E n (promise d) ?v s)"
    unfolding resolve_def using h(1,2) val by (intro rec_keepsD [OF R assms(2,3)]) simp
  show ?thesis
  proof (cases "if p_state (heap s ! self) = 1 then onFulfilled d else onRejected d")
    case None
    with rj rs t show ?thesis by (simp add: run_task_def)
  next
    case (Some cb)
    then have "ok_fn_in p s cb" using h(3,4) by (auto split: if_splits)
    with val have "ok_cmd p s (Call cb ?v VUndefined)" by simp
    from rec_keepsD [OF R assms(2,3) this]
    have k: "keeps p s (callf E n cb ?v VUndefined s)" by (simp add: callf_def)
    show ?thesis
    proof (cases "callf E n cb ?v VUndefined s")
      case None
      with Some t show ?thesis by (simp add: run_task_def)
    next
      case res: (Some x)
      obtain r s1 where x: "x = (r, s1)" by (cases x)
      note k1 = keepsD [OF k res [unfolded x]]
      from k1(2) h(2) have pd: "promise d < length (heap s1)" by (simp add: grows_def)
      show ?thesis
      proof (cases r)
        case (Inl ex)
        with k1(3) have "ok_in p s1 ex" by (simp add: ok_res_def)
        from keeps_from [OF k1(2) keeps_reject [OF k1(1) pd h(1) this]] Some res x Inl t
        show ?thesis by (simp add: run_task_def)
      next
        case (Inr ret)
        with k1(3) have "ok_in p s1 ret" by (simp add: ok_res_def)
        with pd h(1) have "ok_cmd p s1 (Resolve (promise d) ret)" by simp
        from rec_keepsD [OF R k1(1) grows_trans [OF assms(3) k1(2)] this]
        have "keeps p s1 (resolve E n (promise d) ret s1)" by (simp add: resolve_def)
        from keeps_from [OF k1(2) this] Some res x Inr t
        show ?thesis by (simp add: run_task_def)
      qed
    qed
  qed
qed

lemma step_keeps:
  assumes "env_ok p s0 E" "confined p s" "grows s0 s"
  shows "keeps p s (step E n s)"
proof (cases "queue s")
  case Nil
  with assms(2) show ?thesis by (simp add: step_def keeps_val)
next
  case (Cons t ts)
  note dq = confined_dequeue [OF assms(2) Cons]
  have "keeps p (s\<lparr>queue := ts\<rparr>) (run_task E n t (s\<lparr>queue := ts\<rparr>))"
    using dq(2,3,4) assms(3)
    by (intro run_task_keeps [OF assms(1) dq(1)]) (simp_all add: grows_def)
  from keeps_from [OF latch_grows(2) this] Cons show ?thesis
    by (simp add: step_def)
qed

lemma run_event_keeps:
  assumes "env_ok p s0 E" "confined p s" "grows s0 s" "ok_event p s ev"
  shows "keeps p s (run_event E n ev s)"
proof (cases ev)
  case (Do c)
  with assms(4) have "ok_cmd p s c" by (simp add: ok_event_def)
  from rec_keepsD [OF exec_keeps [OF assms(1)] assms(2,3) this] Do show ?thesis
    by (simp add: run_event_def)
next
  case (Then q a b)
  with assms(4) have "ok_in p s (VPromise q)" "ok_in p s a" "ok_in p s b"
    by (simp_all add: ok_event_def)
  from then_val_keeps [OF assms(2) this] Then show ?thesis
    by (simp add: run_event_def)
next
  case Tick
  with step_keeps [OF assms(1,2,3)] show ?thesis by (simp add: run_event_def)
qed

lemma run_events_confined:
  assumes "env_ok p s0 E"
  shows "confined p s \<Longrightarrow> grows s0 s \<Longrightarrow> ok_events p E n evs s \<Longrightarrow> run_events E n evs s = Some s' \<Longrightarrow>
         confined p s'"
proof (induction evs arbitrary: s)
  case Nil
  then show ?case by simp
next
  case (Cons ev evs)
  from Cons.prems(4) obtain r s1 where e: "run_event E n ev s = Some (r, s1)"
    and rest: "run_events E n evs s1 = Some s'"
    by (auto split: option.splits)
  from Cons.prems(3) e have ok: "ok_event p s ev" "ok_events p E n evs s1" by simp_all
  note k = keepsD [OF run_event_keeps [OF assms Cons.prems(1,2) ok(1)] e]
  from Cons.IH [OF k(1) grows_trans [OF Cons.prems(2) k(2)] ok(2) rest] show ?case .
qed

lemma closed_ok_up:
  assumes "nh \<le> nh'"
  shows "ok_val nh nh na nb v \<Longrightarrow> ok_val nh nh' na nb v"
    "ok_fn nh nh na nb f \<Longrightarrow> ok_fn nh nh' na nb f"
    "ok_call nh nh na nb c \<Longrightarrow> ok_call nh nh' na nb c"
  using assms ok_mono [of nh nh' na na nb nb nh] by simp_all

lemma closed_confined:
  assumes "closed_state s"
  shows "confined (length (heap s)) (s\<lparr>heap := heap s @ [fresh_promise], latches := latches s @ [False]\<rparr>)"
proof -
  let ?p = "length (heap s)"
  let ?s1 = "s\<lparr>heap := heap s @ [fresh_promise], latches := latches s @ [False]\<rparr>"
  have le: "length (heap s) \<le> length (heap ?s1)" "length (all_ctxs s) \<le> length (all_ctxs ?s1)"
    "length (any_ctxs s) \<le> length (any_ctxs ?s1)" by simp_all
  note up = ok_in_le [OF le]
  from assms have c: "EMPTYSTRING < length (heap s)"
    "\<forall>ob\<in>set (heap s). ok_in ?p s (p_value ob) \<and> (\<forall>d\<in>set (p_deferreds ob). ok_handler_in ?p s d)"
    "\<forall>t\<in>set (queue s). fst t < length (heap s) \<and> ok_handler_in ?p s (snd t)"
    "\<forall>ctx\<in>set (all_ctxs s).
         ok_in ?p s (all_resolve ctx) \<and> ok_in ?p s (all_reject ctx) \<and>
         (\<forall>x\<in>set (all_args ctx). ok_in ?p s x)"
    "\<forall>ctx\<in>set (any_ctxs s).
         ok_in ?p s (any_resolve ctx) \<and> ok_in ?p s (any_reject ctx) \<and>
         (\<forall>x\<in>set (any_rejectionReasons ctx). ok_in ?p s x)"
    by (simp_all add: closed_state_def)
  have 1: "\<forall>ob\<in>set (heap ?s1). ok_in ?p ?s1 (p_value ob) \<and> (\<forall>d\<in>set (p_deferreds ob). ok_handler_in ?p ?s1 d)"
    using c(2) up(1,3) by auto
  have 2: "\<forall>t\<in>set (queue ?s1). fst t < length (heap ?s1) \<and> fst t \<noteq> ?p \<and> ok_handler_in ?p ?s1 (snd t)"
    using c(3) up(3) by auto
  have 3: "\<forall>ctx\<in>set (all_ctxs ?s1).
         ok_in ?p ?s1 (all_resolve ctx) \<and> ok_in ?p ?s1 (all_reject ctx) \<and>
         (\<forall>x\<in>set (all_args ctx). ok_in ?p ?s1 x)"
    using c(4) up(1) by auto
  have 4: "\<forall>ctx\<in>set (any_ctxs ?s1).
         ok_in ?p ?s1 (any_resolve ctx) \<and> ok_in ?p ?s1 (any_reject ctx) \<and>
         (\<forall>x\<in>set (any_rejectionReasons ctx). ok_in ?p ?s1 x)"
    using c(5) up(1) by auto
  have 0: "?p < length (heap ?s1)" "p_state (heap ?s1 ! ?p) = 0" "EMPTYSTRING < length (heap ?s1)"
    using c(1) by simp_all
  from 0 1 2 3 4 show ?thesis
    unfolding confined_def by blast
qed

lemma Promise_race_empty:
  "Promise_race E (Suc (Suc (Suc n))) [] s =
     Some (Inr (VPromise (length (heap s))),
           s\<lparr>heap := heap s @ [fresh_promise], latches := latches s @ [False]\<rparr>)"
  by (simp add: Promise_race_def new_Promise_def cmd_body_def new_Promise_body_def alloc_def
      doResolve_body_def call_body_def Let_def seq_def)



lemma waiting_on_race_check:
  "(case run_events identity_env 7 waiting_on_race race_of_nothing of
      None \<Rightarrow> False
    | Some s' \<Rightarrow> length (p_deferreds (heap s' ! 6)) = 2 \<and> p_state (heap s' ! 8) = 3 \<and>
                 p_state (heap s' ! 11) = 1 \<and> p_value (heap s' ! 11) = VNum 1 \<and> length (heap s') = 12)"
  by code_simp

lemma same_outcomes_refl [simp]: "same_outcomes s s"
  by (simp add: same_outcomes_def)

lemma same_outcomes_trans: "same_outcomes s t \<Longrightarrow> same_outcomes t u \<Longrightarrow> same_outcomes s u"
  by (simp add: same_outcomes_def)

lemma same_outcomes_upd:
  assumes "\<And>ob. p_state (f ob) = p_state ob" "\<And>ob. p_value (f ob) = p_value ob"
  shows "same_outcomes s (upd q f s)"
proof (cases "q < length (heap s)")
  case True
  with assms show ?thesis by (simp add: same_outcomes_def upd_def nth_list_update)
next
  case False
  then show ?thesis by (simp add: same_outcomes_def upd_def list_update_beyond)
qed

lemma same_outcomes_queue [simp]: "same_outcomes s (s\<lparr>queue := qu\<rparr>)"
  by (simp add: same_outcomes_def)

lemma handle_outcomes: "handle q d s = Some s' \<Longrightarrow> same_outcomes s s'"
  by (auto simp: handle_def handleResolved_def split: option.splits if_splits
      intro!: same_outcomes_upd)

lemma handle_each_outcomes: "handle_each q ds s = Some s' \<Longrightarrow> same_outcomes s s'"
proof (induction ds arbitrary: s)
  case Nil
  then show ?case by simp
next
  case (Cons d ds)
  then obtain s1 where "handle q d s = Some s1" "handle_each q ds s1 = Some s'"
    by (auto split: option.splits)
  with Cons.IH [of s1] show ?case
    by (auto dest!: handle_outcomes intro: same_outcomes_trans)
qed

lemma finale_outcomes:
  assumes "finale q s = Some s'"
  shows "same_outcomes s s'"
proof -
  have clr: "same_outcomes u (upd q (\<lambda>ob. ob\<lparr>p_deferreds := []\<rparr>) u)" for u
    by (rule same_outcomes_upd) simp_all
  have part: "same_outcomes t t'"
    if "(if k then (case handle_each q (p_deferreds (heap t ! q)) t of None \<Rightarrow> None
                   | Some u \<Rightarrow> Some (upd q (\<lambda>ob. ob\<lparr>p_deferreds := []\<rparr>) u)) else Some t) = Some t'"
    for t t' k
    using that clr
    by (auto split: if_splits option.splits dest!: handle_each_outcomes intro: same_outcomes_trans)
  from assms obtain s1 where
    1: "(if p_deferredState (heap s ! q) = 1
         then (case handle_each q (p_deferreds (heap s ! q)) s of None \<Rightarrow> None
               | Some u \<Rightarrow> Some (upd q (\<lambda>ob. ob\<lparr>p_deferreds := []\<rparr>) u)) else Some s) = Some s1"
    and 2: "(if p_deferredState (heap s1 ! q) = 2
         then (case handle_each q (p_deferreds (heap s1 ! q)) s1 of None \<Rightarrow> None
               | Some u \<Rightarrow> Some (upd q (\<lambda>ob. ob\<lparr>p_deferreds := []\<rparr>) u)) else Some s1) = Some s'"
    by (auto simp: finale_def split: option.splits)
  from part [OF 1] part [OF 2] show ?thesis by (rule same_outcomes_trans)
qed

text \<open>What \<open>finale\<close> leaves of a promise that has just been given a state and a value.\<close>

lemma settle_outcome:
  assumes "q < length (heap s)"
    and "finale q (upd q (\<lambda>ob. ob\<lparr>p_state := k, p_value := v\<rparr>) s) = Some s'"
  shows "p_state (heap s' ! q) = k" "p_value (heap s' ! q) = v"
  using finale_outcomes [OF assms(2)] assms(1)
  by (simp_all add: same_outcomes_def upd_def)

lemma fulfil_sets:
  assumes "q < length (heap s)"
  shows "\<exists>s'. finale q (upd q (\<lambda>ob. ob\<lparr>p_state := 1, p_value := v\<rparr>) s) = Some s' \<and>
              p_state (heap s' ! q) = 1 \<and> p_value (heap s' ! q) = v"
proof -
  let ?s1 = "upd q (\<lambda>ob. ob\<lparr>p_state := 1, p_value := v\<rparr>) s"
  have "p_state (heap ?s1 ! q) \<noteq> 0" "p_state (heap ?s1 ! q) \<noteq> 3"
    using assms by (simp_all add: upd_def)
  from finale_settled [OF this] obtain s' where f: "finale q ?s1 = Some s'" by simp
  with settle_outcome [OF assms f] show ?thesis by simp
qed

lemma resolve_body_plain:
  "plain v \<Longrightarrow>
   resolve_body rec q v s = ok (finale q (upd q (\<lambda>ob. ob\<lparr>p_state := 1, p_value := v\<rparr>) s))"
  by (cases v)
     (auto simp: resolve_body_def plain_def getThen_def split: sum.splits val.splits option.splits)

lemma resolve_plain_fulfils:
  assumes "plain v" "q < length (heap s)"
  shows "\<exists>s'. resolve E (Suc n) q v s = Some (Inr VUndefined, s') \<and>
              p_state (heap s' ! q) = 1 \<and> p_value (heap s' ! q) = v"
  using fulfil_sets [OF assms(2), of v] resolve_body_plain [OF assms(1)]
  by (auto simp: resolve_def cmd_body_def ok_def)

lemma resolve_body_promise:
  "x \<noteq> q \<Longrightarrow>
   resolve_body rec q (VPromise x) s
     = ok (finale q (upd q (\<lambda>ob. ob\<lparr>p_state := 3, p_value := VPromise x\<rparr>) s))"
  by (simp add: resolve_body_def getThen_def)

lemma resolve_promise_follows:
  assumes "x \<noteq> q" "q < length (heap s)"
    and "resolve E n q (VPromise x) s = Some (r, s')"
  shows "r = Inr VUndefined \<and> p_state (heap s' ! q) = 3 \<and> p_value (heap s' ! q) = VPromise x"
proof -
  from assms(3) obtain m where n: "n = Suc m" by (cases n) (simp_all add: resolve_def)
  from assms(3) have o: "ok (finale q (upd q (\<lambda>ob. ob\<lparr>p_state := 3, p_value := VPromise x\<rparr>) s)) = Some (r, s')"
    unfolding n resolve_def exec.simps cmd_body_def cmd.case resolve_body_promise [OF assms(1)] .
  then show ?thesis
    by (elim okE) (simp add: settle_outcome [OF assms(2)])
qed

lemma resolve_promise_returns:
  assumes "x \<noteq> q" "p_deferredState (heap s ! q) = 0" "q < length (heap s)"
  shows "\<exists>s'. resolve E (Suc n) q (VPromise x) s = Some (Inr VUndefined, s')"
proof -
  have "p_deferredState (heap (upd q (\<lambda>ob. ob\<lparr>p_state := 3, p_value := VPromise x\<rparr>) s) ! q) = 0"
    using assms(2,3) by (simp add: upd_def)
  from finale_no_waiters [OF this] resolve_body_promise [OF assms(1)] show ?thesis
    by (simp add: resolve_def cmd_body_def ok_def)
qed

lemma resolve_self:
  assumes "q < length (heap s)"
  shows "\<exists>s'. resolve E (Suc n) q (VPromise q) s = Some (Inr VUndefined, s') \<and>
              p_state (heap s' ! q) = 2 \<and> p_value (heap s' ! q) = self_resolution_error"
  using reject_sets [OF assms, of self_resolution_error]
  by (auto simp: resolve_def cmd_body_def resolve_body_def ok_def)

text \<open>
  C6. The scheduled closure calls the registered handler. When the handler raises, the
  closure returns normally and the promise that \<open>then\<close> returned is rejected, in state
  2 with exactly the raised value. When the handler returns a value, the closure
  resolves that promise with it: for a value that is no promise and no thenable the
  promise is fulfilled, in state 1 with exactly the returned value; for another
  promise of this implementation it follows that promise (state 3), and the closure
  returns when nothing waits on it yet; for itself it is rejected with the type error
  of a self-resolution; for every value it is what \<open>resolve\<close> does. In no case does the
  closure raise.
\<close>

theorem handler_exception_rejects:
  assumes "(if p_state (heap s ! self) = 1 then onFulfilled deferred else onRejected deferred) = Some cb"
    and "callf E n cb (p_value (heap s ! self)) VUndefined s = Some (r, s1)"
    and "promise deferred < length (heap s1)"
  shows "(case r of
            Inl ex \<Rightarrow>
              (\<exists>s'. run_task E n (self, deferred) s = Some (Inr VUndefined, s') \<and>
                    p_state (heap s' ! promise deferred) = 2 \<and>
                    p_value (heap s' ! promise deferred) = ex)
          | Inr ret \<Rightarrow>
              run_task E n (self, deferred) s = resolve E n (promise deferred) ret s1 \<and>
              (plain ret \<longrightarrow>
                 (\<exists>s'. run_task E n (self, deferred) s = Some (Inr VUndefined, s') \<and>
                       p_state (heap s' ! promise deferred) = 1 \<and>
                       p_value (heap s' ! promise deferred) = ret)) \<and>
              (\<forall>x. ret = VPromise x \<and> x \<noteq> promise deferred \<longrightarrow>
                 (\<forall>r' s'. run_task E n (self, deferred) s = Some (r', s') \<longrightarrow>
                    r' = Inr VUndefined \<and> p_state (heap s' ! promise deferred) = 3 \<and>
                    p_value (heap s' ! promise deferred) = VPromise x) \<and>
                 (p_deferredState (heap s1 ! promise deferred) = 0 \<longrightarrow>
                    (\<exists>s'. run_task E n (self, deferred) s = Some (Inr VUndefined, s')))) \<and>
              (ret = VPromise (promise deferred) \<longrightarrow>
                 (\<exists>s'. run_task E n (self, deferred) s = Some (Inr VUndefined, s') \<and>
                       p_state (heap s' ! promise deferred) = 2 \<and>
                       p_value (heap s' ! promise deferred) = self_resolution_error))) \<and>
         (\<forall>e s'. run_task E n (self, deferred) s \<noteq> Some (Inl e, s'))"
proof (cases r)
  case (Inl ex)
  from reject_sets [OF assms(3), of ex] obtain s' where
    "reject (promise deferred) ex s1 = Some s'" "p_state (heap s' ! promise deferred) = 2"
    "p_value (heap s' ! promise deferred) = ex"
    by blast
  with assms(1,2) Inl show ?thesis
    by (simp add: run_task_def)
next
  case (Inr ret)
  from assms(2) obtain m where n: "n = Suc m" by (cases n) (simp_all add: callf_def)
  let ?d = "promise deferred"
  from assms(1,2) Inr have run: "run_task E n (self, deferred) s = resolve E n ?d ret s1"
    by (simp add: run_task_def)
  have 1: "\<exists>s'. resolve E n ?d ret s1 = Some (Inr VUndefined, s') \<and>
                p_state (heap s' ! ?d) = 1 \<and> p_value (heap s' ! ?d) = ret" if "plain ret"
    unfolding n by (rule resolve_plain_fulfils [OF that assms(3)])
  have 2: "r' = Inr VUndefined \<and> p_state (heap s' ! ?d) = 3 \<and> p_value (heap s' ! ?d) = VPromise x"
    if "x \<noteq> ?d" "resolve E n ?d (VPromise x) s1 = Some (r', s')" for x r' s'
    by (rule resolve_promise_follows [OF that(1) assms(3) that(2)])
  have 3: "\<exists>s'. resolve E n ?d (VPromise x) s1 = Some (Inr VUndefined, s')"
    if "x \<noteq> ?d" "p_deferredState (heap s1 ! ?d) = 0" for x
    unfolding n by (rule resolve_promise_returns [OF that assms(3)])
  have 4: "\<exists>s'. resolve E n ?d (VPromise ?d) s1 = Some (Inr VUndefined, s') \<and>
              p_state (heap s' ! ?d) = 2 \<and> p_value (heap s' ! ?d) = self_resolution_error"
    unfolding n by (rule resolve_self [OF assms(3)])
  have 5: "resolve E n ?d ret s1 \<noteq> Some (Inl e, s')" for e s'
    by (simp add: resolve_def resolve_no_raise)
  from 1 2 3 4 5 Inr show ?thesis
    unfolding run by (auto simp del: exec.simps)
qed

theorem handler_exception_rejects_witness:
  "(let s = snd (alloc init_state);
        E = (\<lambda>h v. Inl (VStr ''boom''));
        deferred = Handler (VFun (UserFn 0)) VUndefined 6 in
    (if p_state (heap s ! 0) = 1 then onFulfilled deferred else onRejected deferred) = Some (UserFn 0) \<and>
    callf E 1 (UserFn 0) (p_value (heap s ! 0)) VUndefined s = Some (Inl (VStr ''boom''), s) \<and>
    promise deferred < length (heap s) \<and>
    (\<exists>s'. run_task E 1 (0, deferred) s = Some (Inr VUndefined, s') \<and>
          p_state (heap s' ! promise deferred) = 2 \<and>
          p_value (heap s' ! promise deferred) = VStr ''boom'') \<and>
    callf identity_env 1 (UserFn 0) (p_value (heap s ! 0)) VUndefined s = Some (Inr (VBool True), s) \<and>
    plain (VBool True) \<and>
    (\<exists>s'. run_task identity_env 1 (0, deferred) s = Some (Inr VUndefined, s') \<and>
          p_state (heap s' ! promise deferred) = 1 \<and>
          p_value (heap s' ! promise deferred) = VBool True) \<and>
    callf (\<lambda>h v. Inr (VPromise 2)) 1 (UserFn 0) (p_value (heap s ! 0)) VUndefined s
      = Some (Inr (VPromise 2), s) \<and>
    p_deferredState (heap s ! promise deferred) = 0 \<and>
    (\<exists>s'. run_task (\<lambda>h v. Inr (VPromise 2)) 1 (0, deferred) s = Some (Inr VUndefined, s') \<and>
          p_state (heap s' ! promise deferred) = 3 \<and>
          p_value (heap s' ! promise deferred) = VPromise 2))"
proof -
  let ?s = "snd (alloc init_state)"
  let ?E = "(\<lambda>h v. Inl (VStr ''boom'')) :: env"
  let ?F = "(\<lambda>h v. Inr (VPromise 2)) :: env"
  let ?d = "Handler (VFun (UserFn 0)) VUndefined 6"
  have 1: "(if p_state (heap ?s ! 0) = 1 then onFulfilled ?d else onRejected ?d) = Some (UserFn 0)"
    by (simp add: alloc_def init_state_def Handler_def fresh_promise_def)
  have v: "p_value (heap ?s ! 0) = VBool True"
    by (simp add: alloc_def init_state_def fresh_promise_def)
  have 2: "callf ?E 1 (UserFn 0) (p_value (heap ?s ! 0)) VUndefined ?s = Some (Inl (VStr ''boom''), ?s)"
    by (simp add: callf_def cmd_body_def call_body_def)
  have cy: "callf identity_env 1 (UserFn 0) (p_value (heap ?s ! 0)) VUndefined ?s = Some (Inr (VBool True), ?s)"
    unfolding v by (simp add: callf_def cmd_body_def call_body_def identity_env_def)
  have cz: "callf ?F 1 (UserFn 0) (p_value (heap ?s ! 0)) VUndefined ?s = Some (Inr (VPromise 2), ?s)"
    by (simp add: callf_def cmd_body_def call_body_def)
  have 3: "promise ?d < length (heap ?s)"
    by (simp add: alloc_def init_state_def Handler_def)
  have 4: "plain (VBool True)" by (simp add: plain_def)
  have 5: "p_deferredState (heap ?s ! promise ?d) = 0" "2 \<noteq> promise ?d"
    by (simp_all add: alloc_def init_state_def Handler_def fresh_promise_def)
  from handler_exception_rejects [OF 1 2 3, unfolded sum.case]
  have a: "\<exists>s'. run_task ?E 1 (0, ?d) ?s = Some (Inr VUndefined, s') \<and>
          p_state (heap s' ! promise ?d) = 2 \<and> p_value (heap s' ! promise ?d) = VStr ''boom''"
    by blast
  from handler_exception_rejects [OF 1 cy 3, unfolded sum.case] 4
  have b: "\<exists>s'. run_task identity_env 1 (0, ?d) ?s = Some (Inr VUndefined, s') \<and>
          p_state (heap s' ! promise ?d) = 1 \<and> p_value (heap s' ! promise ?d) = VBool True"
    by blast
  from handler_exception_rejects [OF 1 cz 3, unfolded sum.case] 5
  have c: "\<exists>s'. run_task ?F 1 (0, ?d) ?s = Some (Inr VUndefined, s') \<and>
          p_state (heap s' ! promise ?d) = 3 \<and> p_value (heap s' ! promise ?d) = VPromise 2"
    by blast
  from 1 2 3 a cy 4 b cz 5(1) c show ?thesis
    unfolding Let_def by blast
qed

lemma latched_le: "latched l s \<Longrightarrow> lle (latches s) (latches s') \<Longrightarrow> latched l s'"
  by (auto simp: latched_def lle_def)

lemma latched_same: "latched l s \<Longrightarrow> latches s' = latches s \<Longrightarrow> latched l s'"
  by (simp add: latched_def)

lemma latched_simps [simp]:
  "latched l (s\<lparr>heap := h\<rparr>) = latched l s" "latched l (s\<lparr>queue := qu\<rparr>) = latched l s"
  "latched l (s\<lparr>all_ctxs := ac\<rparr>) = latched l s" "latched l (s\<lparr>any_ctxs := bc\<rparr>) = latched l s"
  "latched l (upd q f s) = latched l s"
  by (simp_all add: latched_def upd_def)

lemma latched_more:
  "latched l s \<Longrightarrow> latched l (s\<lparr>latches := latches s @ xs\<rparr>)"
  "latched l s \<Longrightarrow> latched l (s\<lparr>latches := (latches s)[k := True]\<rparr>)"
  by (cases "k < length (latches s)"; auto simp: latched_def nth_append nth_list_update)+

lemma agreeD: "agree l rec rec' \<Longrightarrow> latched l s \<Longrightarrow> rec c s = rec' c s"
  by (simp add: agree_def)

lemma seq_agree:
  assumes "m = m'" and "\<And>v s1. m = Some (Inr v, s1) \<Longrightarrow> k v s1 = k' v s1"
  shows "seq m k = seq m' k'"
  using assms by (auto simp: seq_def split: option.splits sum.splits prod.splits)

lemma apply_val_agree:
  assumes "agree l rec rec'" "latched l s"
  shows "apply_val rec f v s = apply_val rec' f v s"
  by (cases f) (simp_all add: apply_val_def agreeD [OF assms])

lemma run_calls_agree:
  assumes A: "agree l rec rec'" and R: "rec_le rec"
  shows "latched l s \<Longrightarrow> run_calls rec cs t a b s = run_calls rec' cs t a b s"
proof (induction cs arbitrary: s)
  case Nil
  show ?case by simp
next
  case (Cons c cs)
  have rest: "run_calls rec cs t a b s1 = run_calls rec' cs t a b s1"
    if "apply_val rec f v s = Some (Inr w, s1)" for f v w s1
    by (rule Cons.IH [OF latched_le [OF Cons.prems apply_val_le [OF R that]]])
  show ?case
  proof (cases c)
    case (Succeed v)
    show ?thesis unfolding Succeed run_calls.simps
      by (rule seq_agree [OF apply_val_agree [OF A Cons.prems] rest])
  next
    case (Fail v)
    show ?thesis unfolding Fail run_calls.simps
      by (rule seq_agree [OF apply_val_agree [OF A Cons.prems] rest])
  qed
qed

lemma resolve_body_agree:
  assumes "agree l rec rec'" "latched l s"
  shows "resolve_body rec q v s = resolve_body rec' q v s"
  by (simp add: resolve_body_def agreeD [OF assms] cong: sum.case_cong val.case_cong if_cong)

lemma doResolve_body_agree:
  assumes "agree l rec rec'" "latched l s"
  shows "doResolve_body rec f q s = doResolve_body rec' f q s"
  by (simp add: doResolve_body_def Let_def agreeD [OF assms(1) latched_more(1) [OF assms(2)]])

lemma new_Promise_body_agree:
  assumes "agree l rec rec'" "latched l s"
  shows "new_Promise_body rec f s = new_Promise_body rec' f s"
proof -
  have "latched l (s\<lparr>heap := heap s @ [fresh_promise]\<rparr>)" using assms(2) by simp
  from agreeD [OF assms(1) this] show ?thesis
    by (cases f) (simp_all add: new_Promise_body_def alloc_def)
qed

lemma Promise_resolve_body_agree:
  assumes "agree l rec rec'" "latched l s"
  shows "Promise_resolve_body rec v s = Promise_resolve_body rec' v s"
  by (simp add: Promise_resolve_body_def agreeD [OF assms] cong: sum.case_cong val.case_cong if_cong)

lemma res_store_agree:
  assumes "agree l rec rec'" "latched l s"
  shows "res_store rec c i v s = res_store rec' c i v s"
proof -
  have "apply_val rec f w (s\<lparr>all_ctxs := ac\<rparr>) = apply_val rec' f w (s\<lparr>all_ctxs := ac\<rparr>)" for f w ac
    using assms(2) by (intro apply_val_agree [OF assms(1)]) simp
  then show ?thesis by (simp add: res_store_def Let_def)
qed

lemma res_body_agree:
  assumes "agree l rec rec'" "latched l s"
  shows "res_body rec c i v s = res_body rec' c i v s"
  by (simp add: res_body_def agreeD [OF assms] apply_val_agree [OF assms] res_store_agree [OF assms]
      cong: sum.case_cong val.case_cong if_cong option.case_cong)

lemma all_loop_agree:
  assumes A: "agree l rec rec'" and R: "rec_le rec"
  shows "latched l s \<Longrightarrow> all_loop rec c js s = all_loop rec' c js s"
proof (induction js arbitrary: s)
  case Nil
  show ?case by simp
next
  case (Cons i js)
  show ?case
    unfolding all_loop.simps
  proof (rule seq_agree)
    show "rec (ResAll c i (all_args (all_ctxs s ! c) ! i)) s = rec' (ResAll c i (all_args (all_ctxs s ! c) ! i)) s"
      by (rule agreeD [OF A Cons.prems])
  next
    fix v s1
    assume "rec (ResAll c i (all_args (all_ctxs s ! c) ! i)) s = Some (Inr v, s1)"
    from Cons.IH [OF latched_le [OF Cons.prems rec_leD [OF R this]]]
    show "all_loop rec c js s1 = all_loop rec' c js s1" .
  qed
qed

lemma race_each_agree:
  assumes A: "agree l rec rec'" and R: "rec_le rec"
  shows "latched l s \<Longrightarrow> race_each rec vs a b s = race_each rec' vs a b s"
proof (induction vs arbitrary: s)
  case Nil
  show ?case by simp
next
  case (Cons v vs)
  show ?case
    unfolding race_each.simps
  proof (rule seq_agree)
    show "rec (PromiseResolve v) s = rec' (PromiseResolve v) s"
      by (rule agreeD [OF A Cons.prems])
  next
    fix q s1
    assume "rec (PromiseResolve v) s = Some (Inr q, s1)"
    note l1 = latched_le [OF Cons.prems rec_leD [OF R this]]
    show "seq (then_val q a b s1) (\<lambda>r s2. race_each rec vs a b s2)
          = seq (then_val q a b s1) (\<lambda>r s2. race_each rec' vs a b s2)"
    proof (rule seq_agree [OF refl])
      fix r s2
      assume "then_val q a b s1 = Some (Inr r, s2)"
      from Cons.IH [OF latched_same [OF l1 then_val_latches [OF this]]]
      show "race_each rec vs a b s2 = race_each rec' vs a b s2" .
    qed
  qed
qed

lemma call_body_agree:
  assumes A: "agree l rec rec'" and R: "rec_le rec" and L: "latched l s"
  shows "call_body E rec f a b s = call_body E rec' f a b s"
proof -
  have ap: "apply_val rec g w s' = apply_val rec' g w s'" if "latches s' = latches s" for g w s'
    by (rule apply_val_agree [OF A latched_same [OF L that]])
  have lp: "all_loop rec c js s' = all_loop rec' c js s'" if "latches s' = latches s" for c js s'
    by (rule all_loop_agree [OF A R latched_same [OF L that]])
  have rc: "race_each rec vs x y s' = race_each rec' vs x y s'" if "latches s' = latches s" for vs x y s'
    by (rule race_each_agree [OF A R latched_same [OF L that]])
  show ?thesis
    by (cases f)
       (simp_all add: call_body_def Let_def agreeD [OF A L] agreeD [OF A latched_more(2) [OF L]]
          run_calls_agree [OF A R L] ap lp rc)
qed

lemma cmd_body_agree:
  assumes "agree l rec rec'" "rec_le rec" "latched l s"
  shows "cmd_body E rec c s = cmd_body E rec' c s"
  by (cases c)
     (simp_all add: cmd_body_def call_body_agree [OF assms] resolve_body_agree [OF assms(1,3)]
        doResolve_body_agree [OF assms(1,3)] new_Promise_body_agree [OF assms(1,3)]
        Promise_resolve_body_agree [OF assms(1,3)] res_body_agree [OF assms(1,3)])

lemma is_callback_done:
  assumes "is_callback l c" "latched l s"
  shows "cmd_body E rec c s = Some (Inr VUndefined, s)"
proof -
  from assms(1) obtain f a b where c: "c = Call f a b" by (cases c) simp_all
  with assms(1) obtain q where "f = ResolveFn l q \<or> f = RejectFn l q"
    by (cases f) simp_all
  with c assms(2) show ?thesis
    by (auto simp: cmd_body_def call_body_def latched_def)
qed

lemma exec_ignoring_agree: "agree l (exec E n) (exec_ignoring l E n)"
proof (induction n)
  case 0
  show ?case by (simp add: agree_def)
next
  case (Suc n)
  show ?case
    unfolding agree_def
  proof (intro allI impI)
    fix c s
    assume L: "latched l s"
    show "exec E (Suc n) c s = exec_ignoring l E (Suc n) c s"
    proof (cases "is_callback l c")
      case True
      with is_callback_done [OF True L] show ?thesis by simp
    next
      case False
      with cmd_body_agree [OF Suc rec_le_exec L] show ?thesis by simp
    qed
  qed
qed

text \<open>
  C1. Of all the calls of the two callbacks of a \<open>doResolve\<close> call, whose \<open>done\<close> flag
  is \<open>l\<close> and whose promise is \<open>p\<close>, only the first has an effect. The first call
  sets the flag before anything else: what it does is \<open>resolve\<close>, or \<open>reject\<close>, run in
  the state in which the flag is set, and that run is the run in which every call of
  either callback, whoever makes it and however deep in other calls (a thenable that
  calls them from its \<open>then\<close>, for one), does nothing. In every state in which the
  flag is set, every computation is the computation in which these calls do nothing.
  And once a call of either callback has returned, then after any further activity of
  the program a call of either callback, with any argument, returns at once and
  leaves the whole state, and so the state and the value of every promise, as it is.
\<close>

theorem settle_once:
  assumes "l < length (latches s)"
  shows "(\<not> latches s ! l \<longrightarrow>
            callf E (Suc n) (ResolveFn l p) v b s
              = exec_ignoring l E n (Resolve p v) (s\<lparr>latches := (latches s)[l := True]\<rparr>) \<and>
            callf E (Suc n) (RejectFn l p) v b s
              = ok (reject p v (s\<lparr>latches := (latches s)[l := True]\<rparr>))) \<and>
         (latches s ! l \<longrightarrow> exec E j cmd s = exec_ignoring l E j cmd s) \<and>
         ((f = ResolveFn l p \<or> f = RejectFn l p) \<and> callf E i f v b s = Some (r, s1) \<and>
          run_events E m evs s1 = Some s2 \<and> (g = ResolveFn l p \<or> g = RejectFn l p) \<longrightarrow>
            callf E (Suc k) g w c s2 = Some (Inr VUndefined, s2) \<and>
            exec E j cmd s2 = exec_ignoring l E j cmd s2)"
proof (intro conjI impI)
  assume n: "\<not> latches s ! l"
  let ?s0 = "s\<lparr>latches := (latches s)[l := True]\<rparr>"
  from assms have "latched l ?s0" by (simp add: latched_def)
  from agreeD [OF exec_ignoring_agree this]
  have "exec E n (Resolve p v) ?s0 = exec_ignoring l E n (Resolve p v) ?s0" .
  with n show "callf E (Suc n) (ResolveFn l p) v b s = exec_ignoring l E n (Resolve p v) ?s0"
    by (simp add: callf_def cmd_body_def call_body_def)
  from n show "callf E (Suc n) (RejectFn l p) v b s = ok (reject p v ?s0)"
    by (simp add: callf_def cmd_body_def call_body_def)
next
  assume "latches s ! l"
  with assms have "latched l s" by (simp add: latched_def)
  from agreeD [OF exec_ignoring_agree this]
  show "exec E j cmd s = exec_ignoring l E j cmd s" .
next
  assume a: "(f = ResolveFn l p \<or> f = RejectFn l p) \<and> callf E i f v b s = Some (r, s1) \<and>
          run_events E m evs s1 = Some s2 \<and> (g = ResolveFn l p \<or> g = RejectFn l p)"
  then have f: "f = ResolveFn l p \<or> f = RejectFn l p" and g: "g = ResolveFn l p \<or> g = RejectFn l p"
    and c: "exec E i (Call f v b) s = Some (r, s1)" and e: "run_events E m evs s1 = Some s2"
    by (simp_all add: callf_def)
  from f assms c have "latches s1 ! l" by (rule callback_sets_latch)
  moreover from c have "lle (latches s) (latches s1)" by (rule exec_le)
  then have "l < length (latches s1)" using assms by (simp add: lle_def)
  ultimately have "latched l s1" by (simp add: latched_def)
  from latched_le [OF this run_events_le [OF e]] have l2: "latched l s2" .
  then have "latches s2 ! l" by (simp add: latched_def)
  then show "callf E (Suc k) g w c s2 = Some (Inr VUndefined, s2)"
    using g by (rule callback_done)
  from agreeD [OF exec_ignoring_agree l2]
  show "exec E j cmd s2 = exec_ignoring l E j cmd s2" .
qed

theorem settle_once_witness:
  "0 < length (latches one_pending) \<and> \<not> latches one_pending ! 0 \<and>
   callf identity_env (Suc 3) (ResolveFn 0 6) own_reject_thenable VUndefined one_pending
     = exec_ignoring 0 identity_env 3 (Resolve 6 own_reject_thenable)
         (one_pending\<lparr>latches := (latches one_pending)[0 := True]\<rparr>) \<and>
   settled 6 (map_option snd
       (callf identity_env (Suc 3) (ResolveFn 0 6) own_reject_thenable VUndefined one_pending))
     = Some (0, VNull) \<and>
   (\<exists>r s1 s2. callf identity_env 4 (ResolveFn 0 6) own_reject_thenable VUndefined one_pending = Some (r, s1) \<and>
       run_events identity_env 4 [Do (PromiseResolve (VNum 1)), Tick] s1 = Some s2 \<and>
       callf identity_env (Suc 0) (RejectFn 0 6) (VStr ''late'') VUndefined s2 = Some (Inr VUndefined, s2) \<and>
       p_state (heap s2 ! 6) = 0)"
proof -
  let ?c = "callf identity_env 4 (ResolveFn 0 6) own_reject_thenable VUndefined one_pending"
  have l: "0 < length (latches one_pending)" and u: "\<not> latches one_pending ! 0"
    by code_simp+
  have p: "settled 6 (map_option snd
       (callf identity_env (Suc 3) (ResolveFn 0 6) own_reject_thenable VUndefined one_pending))
     = Some (0, VNull)"
    by code_simp
  have "?c \<noteq> None" by code_simp
  then obtain r s1 where c: "?c = Some (r, s1)" by auto
  have "(case ?c of None \<Rightarrow> False
         | Some (r, s1) \<Rightarrow>
             (case run_events identity_env 4 [Do (PromiseResolve (VNum 1)), Tick] s1 of
                None \<Rightarrow> False | Some s2 \<Rightarrow> p_state (heap s2 ! 6) = 0))"
    by code_simp
  with c obtain s2 where e: "run_events identity_env 4 [Do (PromiseResolve (VNum 1)), Tick] s1 = Some s2"
    and p2: "p_state (heap s2 ! 6) = 0"
    by (auto split: option.splits)
  note inst = settle_once [OF l, where E = identity_env and p = 6 and v = own_reject_thenable
      and b = VUndefined and f = "ResolveFn 0 6" and i = 4 and r = r and ?s1.0 = s1 and m = 4
      and evs = "[Do (PromiseResolve (VNum 1)), Tick]" and ?s2.0 = s2 and g = "RejectFn 0 6"
      and n = 3 and k = 0 and w = "VStr ''late''" and c = VUndefined]
  from inst u have 1: "callf identity_env (Suc 3) (ResolveFn 0 6) own_reject_thenable VUndefined one_pending
     = exec_ignoring 0 identity_env 3 (Resolve 6 own_reject_thenable)
         (one_pending\<lparr>latches := (latches one_pending)[0 := True]\<rparr>)"
    by blast
  from inst c e have 2: "callf identity_env (Suc 0) (RejectFn 0 6) (VStr ''late'') VUndefined s2
      = Some (Inr VUndefined, s2)"
    by blast
  from l u 1 p c e 2 p2 show ?thesis by blast
qed

end
